theory Spec2Isabelle
  imports Complex_Main "HOL-Library.Word"
begin

section \<open>JavaScript numbers\<close>

text \<open>
  A JavaScript number is an IEEE 754 double: a finite value, NaN, or one of the two
  infinities. A finite value is held as the real number it denotes; the values of the
  program are the \<open>Fin r\<close> with \<open>is_double r\<close>, the only finite values that rounding
  returns. The two zeros are one value here, so the sign of a zero is not represented; it
  can be observed only by a division by zero, see \<open>js_div\<close> below.
\<close>

datatype jsnum = Fin real | NaN | PosInf | NegInf

text \<open>
  Rounding to nearest, ties to even. \<open>round_half_even\<close> rounds a real to an integer.
  \<open>binade x\<close> is the exponent \<open>e\<close> with \<open>2^e \<le> \<bar>x\<bar> < 2^(e+1)\<close>, kept between -1022 (below it
  doubles are subnormal and their spacing stays \<open>2^-1074\<close>) and 1023; the doubles of that
  binade are the multiples of \<open>ulp x = 2^(e-52)\<close>, and \<open>nearest x\<close> is the multiple nearest
  to \<open>x\<close>. A result of magnitude \<open>2^1024\<close> or more is an infinity.
\<close>

definition round_half_even :: "real \<Rightarrow> int" where
  "round_half_even y =
     (let f = \<lfloor>y\<rfloor>; d = y - of_int f
      in if d < 1 / 2 then f else if 1 / 2 < d then f + 1 else if even f then f else f + 1)"

fun binade_below :: "nat \<Rightarrow> real \<Rightarrow> int" where
  "binade_below 0 x = - 1022"
| "binade_below (Suc n) x =
     (if 2 powi (int (Suc n) - 1022) \<le> \<bar>x\<bar> then int (Suc n) - 1022 else binade_below n x)"

definition binade :: "real \<Rightarrow> int" where
  "binade x = binade_below 2045 x"

definition ulp :: "real \<Rightarrow> real" where
  "ulp x = 2 powi (binade x - 52)"

definition nearest :: "real \<Rightarrow> real" where
  "nearest x = of_int (round_half_even (x / ulp x)) * ulp x"

definition huge :: real where
  "huge = 2 powi 1024"

definition round_double :: "real \<Rightarrow> jsnum" where
  "round_double x =
     (if huge \<le> nearest x then PosInf
      else if nearest x \<le> - huge then NegInf
      else Fin (nearest x))"

text \<open>The reals that are doubles: those that rounding leaves unchanged.\<close>

definition is_double :: "real \<Rightarrow> bool" where
  "is_double r = (round_double r = Fin r)"

text \<open>
  The operators \<^verbatim>\<open>+\<close>, \<^verbatim>\<open>-\<close>, \<^verbatim>\<open>*\<close> and \<^verbatim>\<open>/\<close> on numbers: the exact result of two finite operands
  is rounded, and the special values follow IEEE 754. \<^verbatim>\<open>a - b\<close> is \<^verbatim>\<open>a + (-b)\<close>.
\<close>

fun js_plus :: "jsnum \<Rightarrow> jsnum \<Rightarrow> jsnum" where
  "js_plus NaN b = NaN"
| "js_plus a NaN = NaN"
| "js_plus (Fin a) (Fin b) = round_double (a + b)"
| "js_plus PosInf NegInf = NaN"
| "js_plus NegInf PosInf = NaN"
| "js_plus PosInf b = PosInf"
| "js_plus a PosInf = PosInf"
| "js_plus NegInf b = NegInf"
| "js_plus a NegInf = NegInf"

fun js_neg :: "jsnum \<Rightarrow> jsnum" where
  "js_neg (Fin a) = Fin (- a)"
| "js_neg NaN = NaN"
| "js_neg PosInf = NegInf"
| "js_neg NegInf = PosInf"

definition js_minus :: "jsnum \<Rightarrow> jsnum \<Rightarrow> jsnum" where
  "js_minus a b = js_plus a (js_neg b)"

fun js_times :: "jsnum \<Rightarrow> jsnum \<Rightarrow> jsnum" where
  "js_times NaN b = NaN"
| "js_times a NaN = NaN"
| "js_times (Fin a) (Fin b) = round_double (a * b)"
| "js_times (Fin a) PosInf = (if a = 0 then NaN else if 0 < a then PosInf else NegInf)"
| "js_times (Fin a) NegInf = (if a = 0 then NaN else if 0 < a then NegInf else PosInf)"
| "js_times PosInf (Fin b) = (if b = 0 then NaN else if 0 < b then PosInf else NegInf)"
| "js_times NegInf (Fin b) = (if b = 0 then NaN else if 0 < b then NegInf else PosInf)"
| "js_times PosInf PosInf = PosInf"
| "js_times PosInf NegInf = NegInf"
| "js_times NegInf PosInf = NegInf"
| "js_times NegInf NegInf = PosInf"

text \<open>
  A finite number divided by zero is an infinity whose sign depends on the sign of the
  zero. The model gives it the sign that a positive zero gives. The only division of the
  code modelled here is the one of \<^verbatim>\<open>iou\<close>, made after the test that the divisor is above 0.
\<close>

fun js_div :: "jsnum \<Rightarrow> jsnum \<Rightarrow> jsnum" where
  "js_div NaN b = NaN"
| "js_div a NaN = NaN"
| "js_div (Fin a) (Fin b) =
     (if b = 0 then (if a = 0 then NaN else if 0 < a then PosInf else NegInf)
      else round_double (a / b))"
| "js_div (Fin a) PosInf = Fin 0"
| "js_div (Fin a) NegInf = Fin 0"
| "js_div PosInf (Fin b) = (if 0 \<le> b then PosInf else NegInf)"
| "js_div NegInf (Fin b) = (if 0 \<le> b then NegInf else PosInf)"
| "js_div PosInf PosInf = NaN"
| "js_div PosInf NegInf = NaN"
| "js_div NegInf PosInf = NaN"
| "js_div NegInf NegInf = NaN"

text \<open>The comparisons \<^verbatim>\<open><\<close> and \<^verbatim>\<open><=\<close>; both are false as soon as one side is NaN.\<close>

fun js_lt :: "jsnum \<Rightarrow> jsnum \<Rightarrow> bool" where
  "js_lt NaN b = False"
| "js_lt a NaN = False"
| "js_lt (Fin a) (Fin b) = (a < b)"
| "js_lt PosInf b = False"
| "js_lt a PosInf = True"
| "js_lt a NegInf = False"
| "js_lt NegInf b = True"

fun js_le :: "jsnum \<Rightarrow> jsnum \<Rightarrow> bool" where
  "js_le NaN b = False"
| "js_le a NaN = False"
| "js_le (Fin a) (Fin b) = (a \<le> b)"
| "js_le NegInf b = True"
| "js_le a PosInf = True"
| "js_le PosInf b = False"
| "js_le a NegInf = False"

text \<open>\<^verbatim>\<open>a > b\<close> is \<^verbatim>\<open>b < a\<close>, and \<^verbatim>\<open>a >= b\<close> is \<^verbatim>\<open>b <= a\<close>.\<close>

abbreviation js_gt :: "jsnum \<Rightarrow> jsnum \<Rightarrow> bool" where
  "js_gt a b \<equiv> js_lt b a"

abbreviation js_ge :: "jsnum \<Rightarrow> jsnum \<Rightarrow> bool" where
  "js_ge a b \<equiv> js_le b a"

text \<open>
  \<^verbatim>\<open>Math.min\<close> and \<^verbatim>\<open>Math.max\<close> return NaN as soon as one argument is NaN; \<^verbatim>\<open>Math.floor\<close>
  leaves NaN and the infinities as they are.
\<close>

fun Math_min :: "jsnum \<Rightarrow> jsnum \<Rightarrow> jsnum" where
  "Math_min NaN b = NaN"
| "Math_min a NaN = NaN"
| "Math_min NegInf b = NegInf"
| "Math_min a NegInf = NegInf"
| "Math_min PosInf b = b"
| "Math_min a PosInf = a"
| "Math_min (Fin a) (Fin b) = Fin (min a b)"

fun Math_max :: "jsnum \<Rightarrow> jsnum \<Rightarrow> jsnum" where
  "Math_max NaN b = NaN"
| "Math_max a NaN = NaN"
| "Math_max PosInf b = PosInf"
| "Math_max a PosInf = PosInf"
| "Math_max NegInf b = b"
| "Math_max a NegInf = a"
| "Math_max (Fin a) (Fin b) = Fin (max a b)"

fun Math_floor :: "jsnum \<Rightarrow> jsnum" where
  "Math_floor (Fin a) = Fin (of_int \<lfloor>a\<rfloor>)"
| "Math_floor a = a"

text \<open>
  Storing a number in an \<^verbatim>\<open>Int16Array\<close>: NaN and the infinities become 0, any other number
  is truncated towards zero and reduced modulo \<open>2^16\<close>.
\<close>

fun toInt16 :: "jsnum \<Rightarrow> 16 word" where
  "toInt16 (Fin a) = word_of_int (if 0 \<le> a then \<lfloor>a\<rfloor> else \<lceil>a\<rceil>)"
| "toInt16 a = 0"

section \<open>Geometry of bounding boxes (tracking.ts)\<close>

text \<open>
  The four fields of a box are JavaScript numbers, and \<^verbatim>\<open>iou\<close> and \<^verbatim>\<open>lerpBbox\<close> compute in
  doubles, one rounding for each operation of the source. A decimal literal of the source
  denotes the double nearest to it.
\<close>

record BoundingBox =
  bbox_x :: jsnum
  bbox_y :: jsnum
  bbox_width :: jsnum
  bbox_height :: jsnum

record DetectedItem =
  label :: string
  bbox :: BoundingBox

definition iou :: "BoundingBox \<Rightarrow> BoundingBox \<Rightarrow> jsnum" where
  "iou a b =
     (let ax1 = bbox_x a; ay1 = bbox_y a;
          ax2 = js_plus (bbox_x a) (bbox_width a); ay2 = js_plus (bbox_y a) (bbox_height a);
          bx1 = bbox_x b; by1 = bbox_y b;
          bx2 = js_plus (bbox_x b) (bbox_width b); by2 = js_plus (bbox_y b) (bbox_height b);
          ix1 = Math_max ax1 bx1; iy1 = Math_max ay1 by1;
          ix2 = Math_min ax2 bx2; iy2 = Math_min ay2 by2
      in if js_le ix2 ix1 \<or> js_le iy2 iy1 then Fin 0
         else let inter = js_times (js_minus ix2 ix1) (js_minus iy2 iy1);
                  areaA = js_times (bbox_width a) (bbox_height a);
                  areaB = js_times (bbox_width b) (bbox_height b);
                  union = js_minus (js_plus areaA areaB) inter
              in if js_le union (Fin 0) then Fin 0 else js_div inter union)"

definition lerpBbox :: "BoundingBox \<Rightarrow> BoundingBox \<Rightarrow> jsnum \<Rightarrow> BoundingBox" where
  "lerpBbox a b t =
     \<lparr> bbox_x = js_plus (bbox_x a) (js_times (js_minus (bbox_x b) (bbox_x a)) t),
       bbox_y = js_plus (bbox_y a) (js_times (js_minus (bbox_y b) (bbox_y a)) t),
       bbox_width =
         js_plus (bbox_width a) (js_times (js_minus (bbox_width b) (bbox_width a)) t),
       bbox_height =
         js_plus (bbox_height a) (js_times (js_minus (bbox_height b) (bbox_height a)) t) \<rparr>"

definition MATCH_IOU_THRESH :: jsnum where
  "MATCH_IOU_THRESH = round_double (15 / 100)"

definition LERP_SPEED :: jsnum where
  "LERP_SPEED = round_double (18 / 100)"

definition STABILITY_IOU :: jsnum where
  "STABILITY_IOU = round_double (82 / 100)"

text \<open>
  The geometric reading of the specification, in exact arithmetic. A rectangle has real
  coordinates; the intersection of two rectangles has the overlap of the horizontal
  extents as its width and the overlap of the vertical extents as its height (zero when
  the extents do not overlap); the union's area is the sum of the two areas less the
  intersection's. \<open>box_of\<close> is the box of the program with these coordinates, and
  \<open>double_rect\<close> says that the four coordinates are doubles.
\<close>

record Rect =
  rect_x :: real
  rect_y :: real
  rect_width :: real
  rect_height :: real

definition box_of :: "Rect \<Rightarrow> BoundingBox" where
  "box_of r =
     \<lparr> bbox_x = Fin (rect_x r), bbox_y = Fin (rect_y r),
       bbox_width = Fin (rect_width r), bbox_height = Fin (rect_height r) \<rparr>"

definition double_rect :: "Rect \<Rightarrow> bool" where
  "double_rect r =
     (is_double (rect_x r) \<and> is_double (rect_y r)
      \<and> is_double (rect_width r) \<and> is_double (rect_height r))"

definition overlap_len :: "real \<Rightarrow> real \<Rightarrow> real \<Rightarrow> real \<Rightarrow> real" where
  "overlap_len lo1 hi1 lo2 hi2 = max 0 (min hi1 hi2 - max lo1 lo2)"

definition overlap_width :: "Rect \<Rightarrow> Rect \<Rightarrow> real" where
  "overlap_width a b =
     overlap_len (rect_x a) (rect_x a + rect_width a) (rect_x b) (rect_x b + rect_width b)"

definition overlap_height :: "Rect \<Rightarrow> Rect \<Rightarrow> real" where
  "overlap_height a b =
     overlap_len (rect_y a) (rect_y a + rect_height a) (rect_y b) (rect_y b + rect_height b)"

definition area :: "Rect \<Rightarrow> real" where
  "area a = rect_width a * rect_height a"

definition intersectionArea :: "Rect \<Rightarrow> Rect \<Rightarrow> real" where
  "intersectionArea a b = overlap_width a b * overlap_height a b"

definition unionArea :: "Rect \<Rightarrow> Rect \<Rightarrow> real" where
  "unionArea a b = area a + area b - intersectionArea a b"

text \<open>
  The computation of \<^verbatim>\<open>iou\<close> on two rectangles is free of rounding before the final
  division when the four corner sums, the width and the height of the overlap, the three
  areas, the sum of the two areas and the union's area are doubles.
\<close>

definition exact_steps :: "Rect \<Rightarrow> Rect \<Rightarrow> bool" where
  "exact_steps a b =
     (is_double (rect_x a + rect_width a) \<and> is_double (rect_y a + rect_height a)
      \<and> is_double (rect_x b + rect_width b) \<and> is_double (rect_y b + rect_height b)
      \<and> is_double (overlap_width a b) \<and> is_double (overlap_height a b)
      \<and> is_double (intersectionArea a b) \<and> is_double (area a) \<and> is_double (area b)
      \<and> is_double (area a + area b) \<and> is_double (unionArea a b))"

text \<open>
  The conditions under which a box is found to overlap itself fully: adding the width to
  the left edge and subtracting the edge again gives the width back, likewise for the
  height; the area is above zero; and twice the area is finite.
\<close>

definition round_trip :: "Rect \<Rightarrow> bool" where
  "round_trip a =
     (js_minus (js_plus (Fin (rect_x a)) (Fin (rect_width a))) (Fin (rect_x a))
        = Fin (rect_width a)
      \<and> js_minus (js_plus (Fin (rect_y a)) (Fin (rect_height a))) (Fin (rect_y a))
        = Fin (rect_height a)
      \<and> js_lt (Fin 0) (js_times (Fin (rect_width a)) (Fin (rect_height a)))
      \<and> js_lt (js_plus (js_times (Fin (rect_width a)) (Fin (rect_height a)))
                       (js_times (Fin (rect_width a)) (Fin (rect_height a)))) PosInf)"

text \<open>
  A family of rectangles for which no step rounds: those whose four coordinates are
  multiples of \<open>2^-26\<close>, given here by their integer numerators.
\<close>

definition grid_rect :: "int \<Rightarrow> int \<Rightarrow> int \<Rightarrow> int \<Rightarrow> Rect" where
  "grid_rect x y w h =
     \<lparr> rect_x = of_int x / 2 ^ 26, rect_y = of_int y / 2 ^ 26,
       rect_width = of_int w / 2 ^ 26, rect_height = of_int h / 2 ^ 26 \<rparr>"


section \<open>Labels (tracking.ts)\<close>

text \<open>
  A label is a string of UTF-16 code units below 256 (the Latin-1 range), one \<^typ>\<open>char\<close>
  for each code unit of the JavaScript string, so that \<^const>\<open>length\<close> is the string's
  \<^verbatim>\<open>length\<close>. The white space that \<^verbatim>\<open>trim\<close> removes and that \<^verbatim>\<open>\s\<close> matches is, in that
  range, tab, line feed, vertical tab, form feed, carriage return, space and the
  no-break space U+00A0. \<^verbatim>\<open>toLowerCase\<close> maps the letters A to Z and the capital letters
  U+00C0 to U+00DE (the multiplication sign U+00D7 apart) to the code unit 32 above.
\<close>

definition isWhiteSpace :: "char \<Rightarrow> bool" where
  "isWhiteSpace c =
     (c = CHR 0x09 \<or> c = CHR 0x0A \<or> c = CHR 0x0B \<or> c = CHR 0x0C \<or> c = CHR 0x0D
      \<or> c = CHR '' '' \<or> c = CHR 0xA0)"

definition upperCase :: "char list" where
  "upperCase =
     ''ABCDEFGHIJKLMNOPQRSTUVWXYZ'' @
       [
        CHR 0xC0, CHR 0xC1, CHR 0xC2, CHR 0xC3, CHR 0xC4, CHR 0xC5, CHR 0xC6, CHR 0xC7,
        CHR 0xC8, CHR 0xC9, CHR 0xCA, CHR 0xCB, CHR 0xCC, CHR 0xCD, CHR 0xCE, CHR 0xCF,
        CHR 0xD0, CHR 0xD1, CHR 0xD2, CHR 0xD3, CHR 0xD4, CHR 0xD5, CHR 0xD6, CHR 0xD8,
        CHR 0xD9, CHR 0xDA, CHR 0xDB, CHR 0xDC, CHR 0xDD, CHR 0xDE]"

definition lowerCase :: "char list" where
  "lowerCase =
     ''abcdefghijklmnopqrstuvwxyz'' @
       [
        CHR 0xE0, CHR 0xE1, CHR 0xE2, CHR 0xE3, CHR 0xE4, CHR 0xE5, CHR 0xE6, CHR 0xE7,
        CHR 0xE8, CHR 0xE9, CHR 0xEA, CHR 0xEB, CHR 0xEC, CHR 0xED, CHR 0xEE, CHR 0xEF,
        CHR 0xF0, CHR 0xF1, CHR 0xF2, CHR 0xF3, CHR 0xF4, CHR 0xF5, CHR 0xF6, CHR 0xF8,
        CHR 0xF9, CHR 0xFA, CHR 0xFB, CHR 0xFC, CHR 0xFD, CHR 0xFE]"

definition toLowerChar :: "char \<Rightarrow> char" where
  "toLowerChar c =
     (case map_of (zip upperCase lowerCase) c of
        Some l \<Rightarrow> l
      | None \<Rightarrow> c)"

definition toLowerCase :: "string \<Rightarrow> string" where
  "toLowerCase s = map toLowerChar s"

definition trim :: "string \<Rightarrow> string" where
  "trim s = rev (dropWhile isWhiteSpace (rev (dropWhile isWhiteSpace s)))"

text \<open>
  \<^verbatim>\<open>s.split(/\s+/)\<close>: the string is cut at every maximal run of white space. The piece
  before the first run and the piece after the last one are part of the result also when
  they are empty, and a string without white space (the empty string too) gives one piece.
  The first argument collects the current piece, reversed.
\<close>

function splitWs :: "string \<Rightarrow> string \<Rightarrow> string list" where
  "splitWs cur [] = [rev cur]"
| "splitWs cur (c # cs) =
     (if isWhiteSpace c then rev cur # splitWs [] (dropWhile isWhiteSpace cs)
      else splitWs (c # cur) cs)"
  by pat_completeness auto
termination
  by (relation "measure (\<lambda>(cur, s). length s)")
     (auto simp: le_imp_less_Suc length_dropWhile_le)

definition split_whitespace :: "string \<Rightarrow> string list" where
  "split_whitespace s = splitWs [] s"

definition GENERIC_LABELS :: "string set" where
  "GENERIC_LABELS =
     {''box'', ''boxes'', ''bottle'', ''bottles'', ''can'', ''cans'', ''container'',
      ''containers'', ''item'', ''items''}"

definition isGenericLabel :: "string \<Rightarrow> bool" where
  "isGenericLabel l =
     (let lower = trim (toLowerCase l) in lower \<in> GENERIC_LABELS \<or> length lower \<le> 3)"

definition isMoreSpecificThan :: "string \<Rightarrow> string \<Rightarrow> bool" where
  "isMoreSpecificThan prevLabel newLabel =
     (if \<not> isGenericLabel prevLabel then False
      else if isGenericLabel newLabel then False
      else length newLabel \<ge> length prevLabel \<or> length (split_whitespace newLabel) > 1)"

text \<open>
  The words of a label in the usual sense: its maximal runs of characters that are not
  white space. White space before the first word or after the last one adds no word.
\<close>

definition words_of :: "string \<Rightarrow> string list" where
  "words_of s = filter (\<lambda>w. w \<noteq> []) (split_whitespace s)"

section \<open>Matching detections across frames (tracking.ts)\<close>

text \<open>
  The inner \<^verbatim>\<open>for\<close> loop of both operations: it walks the candidates with their index
  \<open>i\<close>, skips the indices in \<open>used\<close>, and keeps the first candidate whose overlap is
  strictly above the best overlap so far. \<open>ov\<close> is the overlap of a candidate with the item
  being matched. The pair is \<^verbatim>\<open>(bestIdx, bestIou)\<close>, with \<open>None\<close> for the index \<^verbatim>\<open>-1\<close>.
\<close>

fun bestMatch ::
  "(DetectedItem \<Rightarrow> jsnum) \<Rightarrow> nat set \<Rightarrow> DetectedItem list \<Rightarrow> nat \<Rightarrow> nat option \<times> jsnum
     \<Rightarrow> nat option \<times> jsnum" where
  "bestMatch ov used [] i best = best"
| "bestMatch ov used (c # cs) i best =
     (if i \<in> used then bestMatch ov used cs (Suc i) best
      else let ovl = ov c
           in if js_gt ovl (snd best) then bestMatch ov used cs (Suc i) (Some i, ovl)
              else bestMatch ov used cs (Suc i) best)"

text \<open>
  The loop of \<^verbatim>\<open>mergeWithPrevious\<close> over the target items. Each entry of the result is the
  item pushed to \<^verbatim>\<open>out\<close> for one target item, together with the \<^verbatim>\<open>bestIdx\<close> it was matched
  to, so that the matching can be read off the result.
\<close>

fun merge_loop ::
  "DetectedItem list \<Rightarrow> jsnum \<Rightarrow> DetectedItem list \<Rightarrow> nat set
     \<Rightarrow> (nat option \<times> DetectedItem) list" where
  "merge_loop displayed lerpT [] used = []"
| "merge_loop displayed lerpT (t # ts) used =
     (case bestMatch (\<lambda>c. iou (bbox c) (bbox t)) used displayed 0 (None, MATCH_IOU_THRESH) of
        (Some bestIdx, bestIou) \<Rightarrow>
          (let prev = displayed ! bestIdx;
               useNewLabel = isMoreSpecificThan (label prev) (label t);
               stableLabel = (if useNewLabel then label t else label prev);
               stableBbox = (if js_ge bestIou STABILITY_IOU then bbox prev
                             else lerpBbox (bbox prev) (bbox t) lerpT)
           in (Some bestIdx, \<lparr>label = stableLabel, bbox = stableBbox\<rparr>)
              # merge_loop displayed lerpT ts (insert bestIdx used))
      | (None, bestIou) \<Rightarrow>
          (None, \<lparr>label = label t, bbox = bbox t\<rparr>) # merge_loop displayed lerpT ts used)"

text \<open>
  The blend factor \<open>lerpT\<close> is an argument of both operations. A caller that leaves it out
  gets 0.35 in \<^verbatim>\<open>mergeWithPrevious\<close> and \<^verbatim>\<open>LERP_SPEED\<close> in \<^verbatim>\<open>stepDisplayedTowardTarget\<close>.
\<close>

definition mergeWithPrevious ::
  "DetectedItem list \<Rightarrow> DetectedItem list \<Rightarrow> jsnum \<Rightarrow> DetectedItem list" where
  "mergeWithPrevious displayed target lerpT = map snd (merge_loop displayed lerpT target {})"

definition merge_matches ::
  "DetectedItem list \<Rightarrow> DetectedItem list \<Rightarrow> jsnum \<Rightarrow> nat option list" where
  "merge_matches displayed target lerpT = map fst (merge_loop displayed lerpT target {})"

text \<open>
  The first loop of \<^verbatim>\<open>stepDisplayedTowardTarget\<close>, over the displayed items: it returns the
  final \<^verbatim>\<open>used\<close> set and, for each displayed item, the target index it was matched to with
  the item pushed, or \<open>None\<close> when nothing was pushed.
\<close>

fun step_loop ::
  "DetectedItem list \<Rightarrow> jsnum \<Rightarrow> DetectedItem list \<Rightarrow> nat set
     \<Rightarrow> nat set \<times> (nat \<times> DetectedItem) option list" where
  "step_loop target lerpT [] used = (used, [])"
| "step_loop target lerpT (d # ds) used =
     (case bestMatch (\<lambda>c. iou (bbox d) (bbox c)) used target 0 (None, round_double (5 / 100)) of
        (Some bestIdx, bestIou) \<Rightarrow>
          (let t = target ! bestIdx;
               overlap = iou (bbox d) (bbox t);
               newBbox = (if js_ge overlap STABILITY_IOU then bbox d
                          else lerpBbox (bbox d) (bbox t) lerpT);
               useNewLabel = isMoreSpecificThan (label d) (label t);
               pushed = \<lparr>label = (if useNewLabel then label t else label d), bbox = newBbox\<rparr>;
               (used', rest) = step_loop target lerpT ds (insert bestIdx used)
           in (used', Some (bestIdx, pushed) # rest))
      | (None, bestIou) \<Rightarrow>
          (let (used', rest) = step_loop target lerpT ds used in (used', None # rest)))"

text \<open>The second loop: the target items whose index is not in \<^verbatim>\<open>used\<close>, copied.\<close>

fun appendUnused :: "nat set \<Rightarrow> DetectedItem list \<Rightarrow> nat \<Rightarrow> DetectedItem list" where
  "appendUnused used [] i = []"
| "appendUnused used (t # ts) i =
     (if i \<in> used then appendUnused used ts (Suc i)
      else \<lparr>label = label t, bbox = bbox t\<rparr> # appendUnused used ts (Suc i))"

definition pushed_items :: "(nat \<times> DetectedItem) option list \<Rightarrow> DetectedItem list" where
  "pushed_items trace = List.map_filter (map_option snd) trace"

definition stepDisplayedTowardTarget ::
  "DetectedItem list \<Rightarrow> DetectedItem list \<Rightarrow> jsnum \<Rightarrow> DetectedItem list" where
  "stepDisplayedTowardTarget displayed target lerpT =
     (let (used, trace) = step_loop target lerpT displayed {}
      in pushed_items trace @ appendUnused used target 0)"

definition step_matches ::
  "DetectedItem list \<Rightarrow> DetectedItem list \<Rightarrow> jsnum \<Rightarrow> nat option list" where
  "step_matches displayed target lerpT =
     map (map_option fst) (snd (step_loop target lerpT displayed {}))"

text \<open>
  What one iteration of \<^verbatim>\<open>mergeWithPrevious\<close> pushes for target item \<open>t\<close>, as a
  function of the index it was matched to.
\<close>

definition merge_item ::
  "DetectedItem list \<Rightarrow> jsnum \<Rightarrow> nat option \<Rightarrow> DetectedItem \<Rightarrow> DetectedItem" where
  "merge_item displayed lerpT m t =
     (case m of
        None \<Rightarrow> \<lparr>label = label t, bbox = bbox t\<rparr>
      | Some i \<Rightarrow>
          \<lparr>label = (if isMoreSpecificThan (label (displayed ! i)) (label t) then label t
                    else label (displayed ! i)),
           bbox = (if js_ge (iou (bbox (displayed ! i)) (bbox t)) STABILITY_IOU
                   then bbox (displayed ! i)
                   else lerpBbox (bbox (displayed ! i)) (bbox t) lerpT)\<rparr>)"

text \<open>The indices that a list of matches uses, in order.\<close>

definition matched :: "nat option list \<Rightarrow> nat list" where
  "matched ms = List.map_filter id ms"

section \<open>Microphone capture (audioPipeline.ts)\<close>

text \<open>
  The samples of the capture path are the elements of a \<^verbatim>\<open>Float32Array\<close>: any finite
  value, NaN or an infinity. The chunk's numbers are multiplied and compared as doubles.
\<close>

definition SEND_SAMPLE_RATE :: nat where
  "SEND_SAMPLE_RATE = 16000"

definition RECV_SAMPLE_RATE :: nat where
  "RECV_SAMPLE_RATE = 24000"

definition CHUNK_MS :: nat where
  "CHUNK_MS = 100"

definition SEND_FRAMES :: nat where
  "SEND_FRAMES = (SEND_SAMPLE_RATE * CHUNK_MS) div 1000"

text \<open>The value pushed to \<^verbatim>\<open>buffer\<close> for one input sample.\<close>

definition clampSample :: "jsnum \<Rightarrow> jsnum" where
  "clampSample x = Math_max (Fin (- 1)) (Math_min (Fin 1) x)"

text \<open>The number assigned to \<^verbatim>\<open>int16[i]\<close> for a buffered sample, and the stored element.\<close>

definition quantize :: "jsnum \<Rightarrow> jsnum" where
  "quantize s =
     (let v = Math_floor (js_times s (Fin 32767))
      in Math_max (Fin (- 32768)) (Math_min (Fin 32767) v))"

definition encodeChunk :: "jsnum list \<Rightarrow> 16 word list" where
  "encodeChunk chunk = map (\<lambda>s. toInt16 (quantize s)) chunk"

text \<open>
  The \<^verbatim>\<open>while\<close> loop of \<^verbatim>\<open>onaudioprocess\<close>: it returns the \<^verbatim>\<open>Int16Array\<close> of every chunk
  handed to \<^verbatim>\<open>onChunk\<close> (there as the base64 text of its bytes) and the buffer that is left.
\<close>

function emitChunks :: "jsnum list \<Rightarrow> 16 word list list \<times> jsnum list" where
  "emitChunks buffer =
     (if length buffer \<ge> SEND_FRAMES then
        (let chunk = take SEND_FRAMES buffer;
             (out, rest) = emitChunks (drop SEND_FRAMES buffer)
         in (encodeChunk chunk # out, rest))
      else ([], buffer))"
  by pat_completeness auto
termination
  by (relation "measure length")
     (auto simp: SEND_FRAMES_def SEND_SAMPLE_RATE_def CHUNK_MS_def)

declare emitChunks.simps [simp del]

definition onaudioprocess :: "jsnum list \<Rightarrow> jsnum list \<Rightarrow> 16 word list list \<times> jsnum list" where
  "onaudioprocess buffer inputData = emitChunks (buffer @ map clampSample inputData)"

section \<open>Playback scheduling (audioPipeline.ts)\<close>

text \<open>
  The argument of \<^verbatim>\<open>playPcm24k\<close> is taken after \<^verbatim>\<open>atob\<close>, as the bytes of the binary string.
  Times and durations are reals, in seconds. The audio context is the environment of each
  call: whether it is suspended, and its \<^verbatim>\<open>currentTime\<close>.
\<close>

datatype audio_error = RangeError | NotSupportedError

record playback =
  playbackQueue :: "8 word list list"
  hasPlaybackContext :: bool
  nextPlayTime :: real
  started :: "(real \<times> real list) list"
  resumeCallbacks :: nat

text \<open>
  \<^verbatim>\<open>new Int16Array(chunk)\<close>: two bytes for each element, the low byte first; a buffer with an
  odd number of bytes raises RangeError.
\<close>

fun int16_of_bytes :: "8 word list \<Rightarrow> 16 word list option" where
  "int16_of_bytes [] = Some []"
| "int16_of_bytes [b] = None"
| "int16_of_bytes (lo # hi # rest) =
     map_option (\<lambda>ws. word_cat hi lo # ws) (int16_of_bytes rest)"

text \<open>
  \<^verbatim>\<open>drainPlayback\<close>. The result is the exception raised, if any, and the state. A suspended
  context registers one more call of \<^verbatim>\<open>drainPlayback\<close> for when it resumes and leaves the
  chunk in the queue. \<^verbatim>\<open>createBuffer\<close> refuses a buffer of zero frames. Each entry of
  \<^const>\<open>started\<close> is a call \<^verbatim>\<open>node.start(start)\<close> with the samples of its buffer.
\<close>

definition drainPlayback :: "bool \<Rightarrow> real \<Rightarrow> playback \<Rightarrow> audio_error option \<times> playback" where
  "drainPlayback suspended currentTime p =
     (case playbackQueue p of
        [] \<Rightarrow> (None, p)
      | chunk # queue' \<Rightarrow>
          (let p1 = p\<lparr>hasPlaybackContext := True\<rparr>
           in if suspended then (None, p1\<lparr>resumeCallbacks := resumeCallbacks p1 + 1\<rparr>)
              else
                (let p2 = p1\<lparr>playbackQueue := queue'\<rparr>
                 in case int16_of_bytes chunk of
                      None \<Rightarrow> (Some RangeError, p2)
                    | Some int16 \<Rightarrow>
                        (let float32 = map (\<lambda>w. real_of_int (sint w) / 32768) int16
                         in if float32 = [] then (Some NotSupportedError, p2)
                            else
                              (let duration = real (length float32) / real RECV_SAMPLE_RATE;
                                   start = max (nextPlayTime p2) currentTime
                               in (None, p2\<lparr>started := started p2 @ [(start, float32)],
                                             nextPlayTime := start + duration\<rparr>))))))"

definition playPcm24k ::
  "8 word list \<Rightarrow> bool \<Rightarrow> real \<Rightarrow> playback \<Rightarrow> audio_error option \<times> playback" where
  "playPcm24k bytes suspended currentTime p =
     drainPlayback suspended currentTime (p\<lparr>playbackQueue := playbackQueue p @ [bytes]\<rparr>)"

text \<open>
  The context resumes: every call of \<^verbatim>\<open>drainPlayback\<close> registered while it was suspended
  runs, one after the other, at the current time of the resumed context.
\<close>

definition contextResumed :: "real \<Rightarrow> playback \<Rightarrow> playback" where
  "contextResumed currentTime p =
     ((\<lambda>q. snd (drainPlayback False currentTime q)) ^^ resumeCallbacks p)
       (p\<lparr>resumeCallbacks := 0\<rparr>)"

definition stopPlayback :: "playback \<Rightarrow> playback" where
  "stopPlayback p = p\<lparr>playbackQueue := [], nextPlayTime := 0\<rparr>"


text \<open>The duration of a chunk of 16-bit samples at the playback rate.\<close>

definition chunkDuration :: "8 word list \<Rightarrow> real" where
  "chunkDuration bytes = real (length bytes div 2) / real RECV_SAMPLE_RATE"

section \<open>The live session client (class GeminiLiveClient)\<close>

datatype ConnectionState = disconnected | connecting | settingUp | ready | error

datatype ReadyState = CONNECTING | OPEN | CLOSING | CLOSED

text \<open>
  The messages that the client serialises with \<^verbatim>\<open>JSON.stringify\<close>. The setup message has
  constant content. A tool response carries the call id, the name, and the optional
  \<^verbatim>\<open>result\<close> and \<^verbatim>\<open>error\<close> fields.
\<close>

datatype outbound =
    SetupMsg
  | RealtimeVideo string
  | RealtimeAudio string
  | ToolResponse string string "string option" "string option"

text \<open>
  A parsed inbound message, reduced to what \<^verbatim>\<open>handleMessage\<close> reads: a field is present
  (\<open>True\<close>, \<open>Some\<close>) when the code's test on it succeeds.
\<close>

record inline_data =
  mimeType :: "string option"
  inline_bytes :: "string option"

record part =
  inlineData :: "inline_data option"
  part_text :: "string option"

record function_call =
  call_id :: string
  call_name :: string
  call_args :: "string option"

record server_content =
  interrupted :: bool
  modelTurn_parts :: "part list option"
  turnComplete :: bool
  inputTranscription :: "string option"
  outputTranscription :: "string option"

record json =
  setupComplete :: bool
  goAway :: bool
  toolCall_functionCalls :: "function_call list option"
  serverContent :: "server_content option"

text \<open>The calls made to the configured callbacks.\<close>

datatype close_reason = ConnectionClosed nat string | ServerClosing

datatype notification =
    StateChange ConnectionState "string option"
  | AudioReceived string
  | InputTranscription string
  | OutputTranscription string
  | ToolCall string string string
  | TurnComplete
  | Interrupted
  | Disconnected close_reason

text \<open>
  \<^verbatim>\<open>connect\<close> arms two timeouts of 15000 ms for the socket it creates: the first one is
  stored in \<^verbatim>\<open>connectTimeoutId\<close>, the second one is not stored anywhere.
\<close>

datatype timer = StoredTimeout nat | UnstoredTimeout nat

text \<open>
  The first four fields are the fields of the class. The others are its environment: the
  \<^verbatim>\<open>readyState\<close> of every socket created (a socket is its number), what was passed to
  \<^verbatim>\<open>send\<close> of which socket in order, the armed timeouts with their ids, the outcome of the
  promise returned by the \<^verbatim>\<open>connect\<close> call that created each socket, and the calls of
  the callbacks, the latest first.
\<close>

record client =
  ws :: "nat option"
  sendQueue :: "outbound list"
  isModelSpeaking :: bool
  connectTimeoutId :: "nat option"
  readyState :: "nat \<Rightarrow> ReadyState"
  socketCount :: nat
  transmitted :: "(nat \<times> outbound) list"
  timers :: "(nat \<times> timer) list"
  timerCount :: nat
  connectResult :: "nat \<Rightarrow> bool option"
  notifications :: "notification list"

definition init :: client where
  "init = \<lparr>ws = None, sendQueue = [], isModelSpeaking = False, connectTimeoutId = None,
            readyState = (\<lambda>w. CLOSED), socketCount = 0, transmitted = [], timers = [],
            timerCount = 0, connectResult = (\<lambda>w. None), notifications = []\<rparr>"

definition notify :: "notification \<Rightarrow> client \<Rightarrow> client" where
  "notify n c = c\<lparr>notifications := n # notifications c\<rparr>"

text \<open>
  The class keeps no state field: the state of the session is the one last passed to
  \<^verbatim>\<open>onStateChange\<close>, and \<^verbatim>\<open>disconnected\<close> before the first call.
\<close>

fun reported_state :: "notification list \<Rightarrow> ConnectionState" where
  "reported_state [] = disconnected"
| "reported_state (StateChange st msg # ns) = st"
| "reported_state (n # ns) = reported_state ns"

definition session_state :: "client \<Rightarrow> ConnectionState" where
  "session_state c = reported_state (notifications c)"

text \<open>\<^verbatim>\<open>this.ws?.readyState === WebSocket.OPEN\<close>\<close>

definition ws_open :: "client \<Rightarrow> bool" where
  "ws_open c = (case ws c of None \<Rightarrow> False | Some w \<Rightarrow> readyState c w = OPEN)"

text \<open>The methods of a socket, and the timer functions of the host.\<close>

definition socket_send :: "nat \<Rightarrow> outbound \<Rightarrow> client \<Rightarrow> client" where
  "socket_send w m c = c\<lparr>transmitted := transmitted c @ [(w, m)]\<rparr>"

definition socket_close :: "nat \<Rightarrow> client \<Rightarrow> client" where
  "socket_close w c =
     (if readyState c w = CLOSING then c
      else if readyState c w = CLOSED then c
      else c\<lparr>readyState := (readyState c)(w := CLOSING)\<rparr>)"

definition setTimeout :: "timer \<Rightarrow> client \<Rightarrow> nat \<times> client" where
  "setTimeout cb c =
     (timerCount c, c\<lparr>timers := (timerCount c, cb) # timers c, timerCount := timerCount c + 1\<rparr>)"

definition clearTimeout :: "nat \<Rightarrow> client \<Rightarrow> client" where
  "clearTimeout t c = c\<lparr>timers := filter (\<lambda>e. fst e \<noteq> t) (timers c)\<rparr>"

text \<open>\<^verbatim>\<open>resolveOnce\<close> of the \<^verbatim>\<open>connect\<close> call that created socket \<open>w\<close>.\<close>

definition resolveOnce :: "nat \<Rightarrow> bool \<Rightarrow> client \<Rightarrow> client" where
  "resolveOnce w ok c =
     (if connectResult c w \<noteq> None then c
      else c\<lparr>connectResult := (connectResult c)(w := Some ok)\<rparr>)"

definition sendJSON :: "outbound \<Rightarrow> client \<Rightarrow> client" where
  "sendJSON obj c =
     (case ws c of
        None \<Rightarrow> c\<lparr>sendQueue := sendQueue c @ [obj]\<rparr>
      | Some w \<Rightarrow>
          if readyState c w \<noteq> OPEN then c\<lparr>sendQueue := sendQueue c @ [obj]\<rparr>
          else socket_send w obj c)"

definition sendSetup :: "client \<Rightarrow> client" where
  "sendSetup c = sendJSON SetupMsg c"

text \<open>
  The \<^verbatim>\<open>while\<close> loop of \<^verbatim>\<open>flushSendQueue\<close>, with the queue as its argument: it sends the
  head while the queue is not empty and the socket is open.
\<close>

fun flush_loop :: "outbound list \<Rightarrow> client \<Rightarrow> client" where
  "flush_loop [] c = c\<lparr>sendQueue := []\<rparr>"
| "flush_loop (m # queue) c =
     (case ws c of
        None \<Rightarrow> c\<lparr>sendQueue := m # queue\<rparr>
      | Some w \<Rightarrow>
          if readyState c w = OPEN then flush_loop queue (socket_send w m (c\<lparr>sendQueue := queue\<rparr>))
          else c\<lparr>sendQueue := m # queue\<rparr>)"

definition flushSendQueue :: "client \<Rightarrow> client" where
  "flushSendQueue c = flush_loop (sendQueue c) c"

definition handlePart :: "part \<Rightarrow> client \<Rightarrow> client" where
  "handlePart p c =
     (let c1 = (case inlineData p of
                  None \<Rightarrow> c
                | Some d \<Rightarrow>
                    (case mimeType d of
                       None \<Rightarrow> c
                     | Some m \<Rightarrow>
                         (case inline_bytes d of
                            None \<Rightarrow> c
                          | Some b \<Rightarrow>
                              if take 6 m = ''audio/''
                              then notify (AudioReceived b) (c\<lparr>isModelSpeaking := True\<rparr>)
                              else c)))
      in case part_text p of
           None \<Rightarrow> c1
         | Some t \<Rightarrow> notify (OutputTranscription t) c1)"

definition notifyToolCall :: "function_call \<Rightarrow> client \<Rightarrow> client" where
  "notifyToolCall fc c =
     notify (ToolCall (call_id fc) (call_name fc)
               (case call_args fc of None \<Rightarrow> ''{}'' | Some a \<Rightarrow> a)) c"

definition handleServerContent :: "server_content \<Rightarrow> client \<Rightarrow> client" where
  "handleServerContent sc c =
     (if interrupted sc then notify Interrupted (c\<lparr>isModelSpeaking := False\<rparr>)
      else
        (let c1 = (case modelTurn_parts sc of None \<Rightarrow> c | Some ps \<Rightarrow> fold handlePart ps c);
             c2 = (if turnComplete sc then notify TurnComplete (c1\<lparr>isModelSpeaking := False\<rparr>)
                   else c1);
             c3 = (case inputTranscription sc of
                     None \<Rightarrow> c2
                   | Some t \<Rightarrow>
                       if trim t \<noteq> [] then notify (InputTranscription (trim t)) c2 else c2)
         in case outputTranscription sc of
              None \<Rightarrow> c3
            | Some t \<Rightarrow>
                if trim t \<noteq> [] then notify (OutputTranscription (trim t)) c3 else c3))"

text \<open>
  \<^verbatim>\<open>handleMessage\<close>, for a message that arrived on socket \<open>w\<close>: its second argument in
  the source is the \<^verbatim>\<open>resolveOnce\<close> of that socket's \<^verbatim>\<open>connect\<close> call.
\<close>

definition handleMessage :: "json \<Rightarrow> nat \<Rightarrow> client \<Rightarrow> client" where
  "handleMessage j w c =
     (if setupComplete j then
        (let c1 = (case connectTimeoutId c of
                     None \<Rightarrow> c
                   | Some t \<Rightarrow> (clearTimeout t c)\<lparr>connectTimeoutId := None\<rparr>);
             c2 = notify (StateChange ready None) c1;
             c3 = flushSendQueue c2
         in resolveOnce w True c3)
      else if goAway j then
        notify (Disconnected ServerClosing) (notify (StateChange disconnected None) c)
      else
        (case toolCall_functionCalls j of
           Some calls \<Rightarrow> fold notifyToolCall calls c
         | None \<Rightarrow>
             (case serverContent j of
                None \<Rightarrow> c
              | Some sc \<Rightarrow> handleServerContent sc c)))"

text \<open>The handlers that \<^verbatim>\<open>connect\<close> installs on socket \<open>w\<close>, and its two timeouts.\<close>

definition onopen :: "nat \<Rightarrow> client \<Rightarrow> client" where
  "onopen w c = sendSetup (notify (StateChange settingUp None) c)"

definition onclose :: "nat \<Rightarrow> nat \<Rightarrow> string \<Rightarrow> client \<Rightarrow> client" where
  "onclose w code reason c =
     resolveOnce w False
       (notify (Disconnected (ConnectionClosed code reason))
          (notify (StateChange disconnected None) (c\<lparr>ws := None\<rparr>)))"

definition onerror :: "nat \<Rightarrow> client \<Rightarrow> client" where
  "onerror w c =
     resolveOnce w False (notify (StateChange error (Some ''WebSocket error'')) c)"

text \<open>An unparseable message (\<open>None\<close>) is ignored.\<close>

definition onmessage :: "nat \<Rightarrow> json option \<Rightarrow> client \<Rightarrow> client" where
  "onmessage w msg c = (case msg of None \<Rightarrow> c | Some j \<Rightarrow> handleMessage j w c)"

definition timedOut :: "nat \<Rightarrow> client \<Rightarrow> client" where
  "timedOut w c =
     (let c1 = resolveOnce w False c;
          c2 = notify (StateChange error (Some ''Connection timed out'')) c1
      in if ws c2 = Some w then socket_close w c2 else c2)"

fun timerCallback :: "timer \<Rightarrow> client \<Rightarrow> client" where
  "timerCallback (StoredTimeout w) c = timedOut w (c\<lparr>connectTimeoutId := None\<rparr>)"
| "timerCallback (UnstoredTimeout w) c = timedOut w c"

text \<open>
  \<^verbatim>\<open>connect\<close> returns a promise: already resolved, or the promise of the socket it
  created.
\<close>

datatype promise = Resolved bool | Pending nat

definition connect :: "string \<Rightarrow> client \<Rightarrow> promise \<times> client" where
  "connect apiKey c =
     (if ws_open c then (Resolved True, c)
      else
        (let c1 = notify (StateChange connecting None) c;
             w = socketCount c1;
             c2 = c1\<lparr>readyState := (readyState c1)(w := CONNECTING),
                     socketCount := w + 1,
                     connectResult := (connectResult c1)(w := None),
                     ws := Some w\<rparr>;
             (t, c3) = setTimeout (StoredTimeout w) c2;
             c4 = c3\<lparr>connectTimeoutId := Some t\<rparr>;
             (t', c5) = setTimeout (UnstoredTimeout w) c4
         in (Pending w, c5)))"

definition sendVideoFrame :: "string \<Rightarrow> client \<Rightarrow> client" where
  "sendVideoFrame jpegBase64 c =
     (if \<not> ws_open c then c else sendJSON (RealtimeVideo jpegBase64) c)"

definition sendAudio :: "string \<Rightarrow> client \<Rightarrow> client" where
  "sendAudio pcmBase64 c =
     (if \<not> ws_open c then c else sendJSON (RealtimeAudio pcmBase64) c)"

definition sendToolResponse ::
  "string \<Rightarrow> string \<Rightarrow> string option \<Rightarrow> string option \<Rightarrow> client \<Rightarrow> client" where
  "sendToolResponse callId name res err c = sendJSON (ToolResponse callId name res err) c"

definition disconnect :: "client \<Rightarrow> client" where
  "disconnect c =
     (let c1 = (case ws c of None \<Rightarrow> c | Some w \<Rightarrow> (socket_close w c)\<lparr>ws := None\<rparr>)
      in notify (StateChange disconnected None)
           (c1\<lparr>sendQueue := [], isModelSpeaking := False\<rparr>))"

text \<open>
  One turn of the event loop: a call of a public method, an event of socket \<open>w\<close>, or an armed
  timeout that expires. The host opens only a connecting socket, delivers messages only on
  a socket that is open or closing, and closes a socket once; an expired or cleared timeout
  does not run.
\<close>

datatype event =
    CallConnect string
  | CallSendVideoFrame string
  | CallSendAudio string
  | CallSendToolResponse string string "string option" "string option"
  | CallDisconnect
  | SocketOpen nat
  | SocketMessage nat "json option"
  | SocketError nat
  | SocketClose nat nat string
  | TimerExpired nat

fun step :: "event \<Rightarrow> client \<Rightarrow> client" where
  "step (CallConnect apiKey) c = snd (connect apiKey c)"
| "step (CallSendVideoFrame d) c = sendVideoFrame d c"
| "step (CallSendAudio d) c = sendAudio d c"
| "step (CallSendToolResponse callId name res err) c = sendToolResponse callId name res err c"
| "step CallDisconnect c = disconnect c"
| "step (SocketOpen w) c =
     (if readyState c w = CONNECTING then onopen w (c\<lparr>readyState := (readyState c)(w := OPEN)\<rparr>)
      else c)"
| "step (SocketMessage w msg) c =
     (if readyState c w = OPEN then onmessage w msg c
      else if readyState c w = CLOSING then onmessage w msg c
      else c)"
| "step (SocketError w) c = (if readyState c w = CLOSED then c else onerror w c)"
| "step (SocketClose w code reason) c =
     (if readyState c w = CLOSED then c
      else onclose w code reason (c\<lparr>readyState := (readyState c)(w := CLOSED)\<rparr>))"
| "step (TimerExpired t) c =
     (case map_of (timers c) t of
        None \<Rightarrow> c
      | Some cb \<Rightarrow> timerCallback cb (clearTimeout t c))"

definition run :: "event list \<Rightarrow> client \<Rightarrow> client" where
  "run evs c = fold step evs c"

text \<open>The inbound message that only carries the \<^verbatim>\<open>setupComplete\<close> marker.\<close>

definition setupCompleteMsg :: json where
  "setupCompleteMsg =
     \<lparr>setupComplete = True, goAway = False, toolCall_functionCalls = None,
      serverContent = None\<rparr>"

text \<open>
  The events that can fall into the time between the opening of the transport and the
  expiry of the timeouts without ending the wait for the acknowledgment: an inbound message
  that is unparseable or carries no \<^verbatim>\<open>setupComplete\<close>, and the calls that send.
\<close>

fun quiet_event :: "event \<Rightarrow> bool" where
  "quiet_event (SocketMessage w None) = True"
| "quiet_event (SocketMessage w (Some j)) = (\<not> setupComplete j)"
| "quiet_event (CallSendVideoFrame d) = True"
| "quiet_event (CallSendAudio d) = True"
| "quiet_event (CallSendToolResponse callId name res err) = True"
| "quiet_event e = False"

text \<open>
  The events that can come between a \<^verbatim>\<open>connect\<close> call and the expiry of its second
  timeout \<open>t\<close>: everything but that expiry itself and a message with \<^verbatim>\<open>setupComplete\<close> on
  the socket \<open>w\<close> created by the call.
\<close>

fun in_window :: "nat \<Rightarrow> nat \<Rightarrow> event \<Rightarrow> bool" where
  "in_window w t (TimerExpired t') = (t' \<noteq> t)"
| "in_window w t (SocketMessage w' (Some j)) = (\<not> (w' = w \<and> setupComplete j))"
| "in_window w t e = True"

text \<open>
  The second timeout \<open>t\<close> of socket \<open>w\<close> is armed and is not the stored one, later timers
  and sockets get other numbers, and the promise of \<open>w\<close> is not resolved with true.
\<close>

definition timeout_pending :: "nat \<Rightarrow> nat \<Rightarrow> client \<Rightarrow> bool" where
  "timeout_pending w t c =
     (map_of (timers c) t = Some (UnstoredTimeout w) \<and> connectTimeoutId c \<noteq> Some t
      \<and> t < timerCount c \<and> w < socketCount c \<and> connectResult c w \<noteq> Some True)"

text \<open>Two states with the same sockets, promises and timers.\<close>

definition same_connection :: "client \<Rightarrow> client \<Rightarrow> bool" where
  "same_connection c c' =
     (ws c' = ws c \<and> readyState c' = readyState c \<and> connectResult c' = connectResult c
      \<and> timers c' = timers c \<and> connectTimeoutId c' = connectTimeoutId c)"

text \<open>
  A tool response as the arguments of \<^verbatim>\<open>sendToolResponse\<close>, the call that submits it and
  the message it becomes.
\<close>

type_synonym tool_response = "string \<times> string \<times> string option \<times> string option"

fun respond :: "tool_response \<Rightarrow> event" where
  "respond (callId, name, res, err) = CallSendToolResponse callId name res err"

fun response_msg :: "tool_response \<Rightarrow> outbound" where
  "response_msg (callId, name, res, err) = ToolResponse callId name res err"

text \<open>\<open>m2\<close> was sent after the first time \<open>m1\<close> was sent.\<close>

definition sent_before :: "outbound \<Rightarrow> outbound \<Rightarrow> (nat \<times> outbound) list \<Rightarrow> bool" where
  "sent_before m1 m2 tr = (m2 \<in> set (map snd (tl (dropWhile (\<lambda>e. snd e \<noteq> m1) tr))))"

section \<open>Rounding to doubles\<close>

lemma binade_below_range: "- 1022 \<le> binade_below n x \<and> binade_below n x \<le> int n - 1022"
  by (induction n) auto

lemma binade_below_lower:
  "- 1022 < binade_below n x \<Longrightarrow> 2 powi (binade_below n x) \<le> \<bar>x\<bar>"
  by (induction n) (auto split: if_splits)

lemma binade_below_upper:
  "binade_below n x < int n - 1022 \<Longrightarrow> \<bar>x\<bar> < 2 powi (binade_below n x + 1)"
proof (induction n)
  case 0
  then show ?case by simp
next
  case (Suc n)
  show ?case
  proof (cases "2 powi (int (Suc n) - 1022) \<le> \<bar>x\<bar>")
    case True
    with Suc.prems show ?thesis by simp
  next
    case False
    then have lt: "\<bar>x\<bar> < 2 powi (int (Suc n) - 1022)" by simp
    from False have eq: "binade_below (Suc n) x = binade_below n x" by simp
    show ?thesis
    proof (cases "binade_below n x < int n - 1022")
      case True
      with Suc.IH eq show ?thesis by simp
    next
      case False
      with binade_below_range [of n x] have "binade_below n x = int n - 1022" by simp
      then have "int (Suc n) - 1022 = binade_below (Suc n) x + 1" using eq by simp
      with lt show ?thesis by (simp only:)
    qed
  qed
qed

lemma binade_range: "- 1022 \<le> binade x" "binade x \<le> 1023"
  using binade_below_range [of 2045 x] by (simp_all add: binade_def)

lemma binade_lower: "- 1022 < binade x \<Longrightarrow> 2 powi (binade x) \<le> \<bar>x\<bar>"
  unfolding binade_def by (rule binade_below_lower)

lemma binade_upper: "binade x < 1023 \<Longrightarrow> \<bar>x\<bar> < 2 powi (binade x + 1)"
  using binade_below_upper [of 2045 x] by (simp add: binade_def)

lemma binade_eqI:
  assumes "- 1022 \<le> e" "e \<le> 1023" "e = - 1022 \<or> 2 powi e \<le> \<bar>x\<bar>" "e = 1023 \<or> \<bar>x\<bar> < 2 powi (e + 1)"
  shows "binade x = e"
proof (rule ccontr)
  assume ne: "binade x \<noteq> e"
  show False
  proof (cases "binade x < e")
    case True
    then have "binade x < 1023" using assms(2) by simp
    from binade_upper [OF this] have "\<bar>x\<bar> < 2 powi (binade x + 1)" .
    also have "\<dots> \<le> 2 powi e" using True by (intro power_int_increasing) simp_all
    finally have "\<bar>x\<bar> < 2 powi e" .
    moreover from True binade_range(1) [of x] have "e \<noteq> - 1022" by simp
    ultimately show False using assms(3) by simp
  next
    case False
    with ne have gt: "e < binade x" by simp
    then have "- 1022 < binade x" using assms(1) by simp
    from binade_lower [OF this] have "2 powi (binade x) \<le> \<bar>x\<bar>" .
    moreover have "2 powi (e + 1) \<le> (2 :: real) powi (binade x)"
      using gt by (intro power_int_increasing) simp_all
    moreover from gt binade_range(2) [of x] have "e \<noteq> 1023" by simp
    ultimately show False using assms(4) by simp
  qed
qed

lemma round_half_even_int [simp]: "round_half_even (of_int m) = m"
  by (simp add: round_half_even_def)

lemma round_half_even_le: "y \<le> of_int n \<Longrightarrow> round_half_even y \<le> n"
  unfolding round_half_even_def Let_def
  by (auto simp: floor_le_iff le_floor_iff)

lemma round_half_even_ge: "of_int n \<le> y \<Longrightarrow> n \<le> round_half_even y"
  unfolding round_half_even_def Let_def
  by (auto simp: le_floor_iff) linarith+


lemma powi2_le_iff: "(2 :: real) powi a \<le> 2 powi b \<longleftrightarrow> a \<le> b"
proof
  assume le: "(2 :: real) powi a \<le> 2 powi b"
  show "a \<le> b"
  proof (rule ccontr)
    assume "\<not> a \<le> b"
    then have "b < a" by simp
    then have "(2 :: real) powi b < 2 powi a" by (rule power_int_strict_increasing) simp
    with le show False by simp
  qed
next
  assume "a \<le> b"
  then show "(2 :: real) powi a \<le> 2 powi b" by (rule power_int_increasing) simp
qed

lemma powi2_less_iff: "(2 :: real) powi a < 2 powi b \<longleftrightarrow> a < b"
  using powi2_le_iff [of b a] by (simp add: not_le [symmetric])

lemma powi2_pos: "0 < (2 :: real) powi a"
  by simp

lemma powi2_split: "(2 :: real) powi (a + b) = 2 powi a * 2 powi b"
  by (rule power_int_add) simp

lemma powi2_nonneg_int:
  assumes "0 \<le> d"
  shows "(2 :: real) powi d = of_int (2 ^ nat d)"
  using assms by (simp add: power_int_nonneg_exp)

text \<open>Scaling by the unit of the binade.\<close>

lemma scaled_int:
  assumes "j \<le> k"
  shows "of_int m * 2 powi k / 2 powi j = (of_int (m * 2 ^ nat (k - j)) :: real)"
proof -
  have "(2 :: real) powi k = 2 powi (k - j) * 2 powi j"
    using powi2_split [of "k - j" j] by simp
  then have "of_int m * 2 powi k / 2 powi j = of_int m * (2 :: real) powi (k - j)"
    by simp
  also have "\<dots> = of_int (m * 2 ^ nat (k - j))"
    using assms by (simp add: powi2_nonneg_int)
  finally show ?thesis .
qed

lemma rep_exponent:
  assumes "\<bar>m\<bar> < 2 ^ 53" and "2 powi e \<le> \<bar>of_int m * 2 powi k :: real\<bar>"
  shows "e - 52 \<le> k"
proof -
  have "\<bar>of_int m * 2 powi k :: real\<bar> = of_int \<bar>m\<bar> * 2 powi k"
    by (simp add: abs_mult)
  also have "\<dots> < 2 ^ 53 * 2 powi k"
  proof (rule mult_strict_right_mono)
    from assms(1) have "(of_int \<bar>m\<bar> :: real) < of_int (2 ^ 53)" by (simp only: of_int_less_iff)
    then show "(of_int \<bar>m\<bar> :: real) < 2 ^ 53" by simp
  qed simp
  also have "\<dots> = 2 powi (53 + k)"
    using powi2_split [of 53 k] by simp
  finally have "\<bar>of_int m * 2 powi k :: real\<bar> < 2 powi (53 + k)" .
  with assms(2) have "(2 :: real) powi e < 2 powi (53 + k)" by simp
  then show ?thesis by (simp add: powi2_less_iff)
qed

lemma ulp_pos: "0 < ulp x"
  by (simp add: ulp_def)

lemma huge_ulp: "binade x = 1023 \<Longrightarrow> huge = 2 ^ 53 * ulp x"
  unfolding huge_def ulp_def using powi2_split [of 53 971] by simp

lemma next_binade: "2 powi (binade x + 1) = 2 ^ 53 * ulp x"
  unfolding ulp_def using powi2_split [of 53 "binade x - 52"] by (simp add: add.commute)

lemma this_binade: "2 powi (binade x) = 2 ^ 52 * ulp x"
  unfolding ulp_def using powi2_split [of 52 "binade x - 52"] by simp

lemma on_grid:
  assumes m: "\<bar>m\<bar> < 2 ^ 53" and k: "- 1074 \<le> k" and e: "- 1022 \<le> e"
      and big: "e = - 1022 \<or> 2 powi e \<le> \<bar>of_int m * 2 powi k :: real\<bar>"
  shows "of_int m * 2 powi k / 2 powi (e - 52) = (of_int (m * 2 ^ nat (k - (e - 52))) :: real)"
proof -
  from big have "e - 52 \<le> k"
  proof
    assume "e = - 1022" with k show ?thesis by simp
  next
    assume "2 powi e \<le> \<bar>of_int m * 2 powi k :: real\<bar>"
    with m show ?thesis by (rule rep_exponent)
  qed
  then show ?thesis by (rule scaled_int)
qed

lemma nearest_rep:
  assumes m: "\<bar>m\<bar> < 2 ^ 53" and k: "- 1074 \<le> k"
  shows "nearest (of_int m * 2 powi k) = of_int m * 2 powi k"
proof -
  let ?x = "of_int m * 2 powi k :: real"
  let ?e = "binade ?x"
  have big: "?e = - 1022 \<or> 2 powi ?e \<le> \<bar>?x\<bar>"
    using binade_lower [of ?x] binade_range(1) [of ?x] by linarith
  from on_grid [OF m k binade_range(1) big]
  have "?x / ulp ?x = of_int (m * 2 ^ nat (k - (?e - 52)))" unfolding ulp_def .
  then have "nearest ?x = ?x / ulp ?x * ulp ?x"
    unfolding nearest_def by (simp only: round_half_even_int)
  also have "\<dots> = ?x" using ulp_pos [of ?x] by simp
  finally show ?thesis .
qed

lemma round_double_nearest:
  "\<bar>nearest x\<bar> < huge \<Longrightarrow> round_double x = Fin (nearest x)"
  unfolding round_double_def by (auto simp: abs_less_iff)

lemma rep_normal:
  assumes "\<bar>m\<bar> \<le> 2 ^ 53" "- 1074 \<le> k"
  shows "\<exists>m' k'. (of_int m * 2 powi k :: real) = of_int m' * 2 powi k'
           \<and> \<bar>m'\<bar> < 2 ^ 53 \<and> - 1074 \<le> k'"
proof (cases "\<bar>m\<bar> < 2 ^ 53")
  case True
  with assms(2) show ?thesis by blast
next
  case False
  with assms(1) have "\<bar>m\<bar> = 2 ^ 53" by simp
  then have "m = sgn m * 2 ^ 53" by (simp add: abs_if sgn_if split: if_splits)
  then have "(of_int m :: real) = of_int (sgn m * 2 ^ 53)" by simp
  then have "(of_int m :: real) = of_int (sgn m) * 2 powi 53"
    by simp
  then have "(of_int m * 2 powi k :: real) = of_int (sgn m) * (2 powi 53 * 2 powi k)"
    by (simp only: mult.assoc)
  also have "\<dots> = of_int (sgn m) * 2 powi (k + 53)"
    using powi2_split [of 53 k] by (simp only: add.commute)
  finally have "(of_int m * 2 powi k :: real) = of_int (sgn m) * 2 powi (k + 53)" .
  moreover have "\<bar>sgn m\<bar> < 2 ^ 53" by (simp add: sgn_if)
  moreover from assms(2) have "- 1074 \<le> k + 53" by simp
  ultimately show ?thesis by blast
qed

lemma round_double_rep:
  assumes "\<bar>m\<bar> \<le> 2 ^ 53" "- 1074 \<le> k" "\<bar>of_int m * 2 powi k :: real\<bar> < huge"
  shows "round_double (of_int m * 2 powi k) = Fin (of_int m * 2 powi k)"
proof -
  from rep_normal [OF assms(1,2)] obtain m' k' where
    eq: "(of_int m * 2 powi k :: real) = of_int m' * 2 powi k'"
    and m': "\<bar>m'\<bar> < 2 ^ 53" and k': "- 1074 \<le> k'" by blast
  from nearest_rep [OF m' k'] have n: "nearest (of_int m * 2 powi k) = of_int m * 2 powi k"
    unfolding eq .
  from assms(3) show ?thesis
    using round_double_nearest [of "of_int m * 2 powi k"] unfolding n by simp
qed

lemma round_double_Fin:
  assumes "round_double x = Fin r"
  shows "r = nearest x" "\<bar>r\<bar> < huge"
  using assms unfolding round_double_def by (auto split: if_splits)

lemma mantissa_bound:
  assumes "\<bar>nearest x\<bar> < huge"
  shows "\<bar>round_half_even (x / ulp x)\<bar> \<le> 2 ^ 53"
proof -
  let ?n = "round_half_even (x / ulp x)"
  note q = ulp_pos [of x]
  show ?thesis
  proof (cases "binade x < 1023")
    case True
    from binade_upper [OF True] have "\<bar>x\<bar> < 2 ^ 53 * ulp x" unfolding next_binade .
    then have "\<bar>x\<bar> / ulp x < 2 ^ 53" using q by (simp add: pos_divide_less_eq)
    then have "\<bar>x / ulp x\<bar> < 2 ^ 53" using q by simp
    then have "x / ulp x \<le> 2 ^ 53" "- (2 ^ 53) \<le> x / ulp x" by linarith+
    then have le: "x / ulp x \<le> of_int (2 ^ 53)" and ge: "of_int (- (2 ^ 53)) \<le> x / ulp x"
      by simp_all
    from le have "?n \<le> 2 ^ 53" by (rule round_half_even_le)
    moreover from ge have "- (2 ^ 53) \<le> ?n" by (rule round_half_even_ge)
    ultimately show ?thesis by simp
  next
    case False
    with binade_range(2) [of x] have e: "binade x = 1023" by simp
    from assms have "\<bar>of_int ?n * ulp x\<bar> < 2 ^ 53 * ulp x"
      unfolding nearest_def huge_ulp [OF e] .
    then have "\<bar>of_int ?n :: real\<bar> * ulp x < 2 ^ 53 * ulp x" using q by (simp add: abs_mult)
    then have "\<bar>of_int ?n :: real\<bar> < 2 ^ 53" using q by simp
    then have "(of_int \<bar>?n\<bar> :: real) < of_int (2 ^ 53)" by simp
    then have "\<bar>?n\<bar> < 2 ^ 53" by (simp only: of_int_less_iff)
    then show ?thesis by simp
  qed
qed

lemma is_doubleI:
  assumes "\<bar>m\<bar> \<le> 2 ^ 53" "- 1074 \<le> k" "\<bar>of_int m * 2 powi k :: real\<bar> < huge"
  shows "is_double (of_int m * 2 powi k)"
  unfolding is_double_def using assms by (rule round_double_rep)

lemma round_double_shape:
  assumes "round_double x = Fin r"
  shows "\<exists>m k. r = of_int m * 2 powi k \<and> \<bar>m\<bar> < 2 ^ 53 \<and> - 1074 \<le> k \<and> \<bar>r\<bar> < huge"
proof -
  note r = round_double_Fin [OF assms]
  from r have "\<bar>nearest x\<bar> < huge" by simp
  from mantissa_bound [OF this] have n: "\<bar>round_half_even (x / ulp x)\<bar> \<le> 2 ^ 53" .
  have k: "- 1074 \<le> binade x - 52" using binade_range(1) [of x] by simp
  from rep_normal [OF n k] obtain m' k' where
    "of_int (round_half_even (x / ulp x)) * 2 powi (binade x - 52) = (of_int m' * 2 powi k' :: real)"
    "\<bar>m'\<bar> < 2 ^ 53" "- 1074 \<le> k'" by blast
  with r show ?thesis unfolding nearest_def ulp_def by blast
qed

lemma is_doubleE:
  assumes "is_double r"
  shows "\<exists>m k. r = of_int m * 2 powi k \<and> \<bar>m\<bar> < 2 ^ 53 \<and> - 1074 \<le> k \<and> \<bar>r\<bar> < huge"
  using assms unfolding is_double_def by (rule round_double_shape)

lemma round_double_is_double:
  assumes "round_double x = Fin r"
  shows "is_double r"
proof -
  from round_double_shape [OF assms] obtain m k where
    r: "r = of_int m * 2 powi k" and m: "\<bar>m\<bar> < 2 ^ 53" and k: "- 1074 \<le> k"
    and fin: "\<bar>r\<bar> < huge" by blast
  from m have m': "\<bar>m\<bar> \<le> 2 ^ 53" by simp
  from fin have "\<bar>of_int m * 2 powi k :: real\<bar> < huge" unfolding r .
  from is_doubleI [OF m' k this] show ?thesis unfolding r .
qed


text \<open>Rounding never crosses a double.\<close>

lemma double_on_grid:
  assumes "is_double r" and "binade x = - 1022 \<or> 2 powi (binade x) \<le> \<bar>r\<bar>"
  shows "\<exists>N. r / ulp x = of_int N"
proof -
  from is_doubleE [OF assms(1)] obtain m k where
    r: "r = of_int m * 2 powi k" and m: "\<bar>m\<bar> < 2 ^ 53" and k: "- 1074 \<le> k" by blast
  from assms(2) have "binade x = - 1022 \<or> 2 powi (binade x) \<le> \<bar>of_int m * 2 powi k :: real\<bar>"
    unfolding r .
  from on_grid [OF m k binade_range(1) this] show ?thesis unfolding r ulp_def by blast
qed

lemma nearest_le:
  assumes "is_double r" "x \<le> r"
  shows "nearest x \<le> r"
proof (cases "binade x = - 1022 \<or> 2 powi (binade x) \<le> \<bar>r\<bar>")
  case True
  from double_on_grid [OF assms(1) True] obtain N where N: "r / ulp x = of_int N" by blast
  from assms(2) have "x / ulp x \<le> r / ulp x"
    using ulp_pos [of x] by (simp add: divide_right_mono)
  then have "round_half_even (x / ulp x) \<le> N" unfolding N by (rule round_half_even_le)
  then have "(of_int (round_half_even (x / ulp x)) :: real) \<le> of_int N" by simp
  then have "nearest x \<le> r / ulp x * ulp x"
    unfolding nearest_def N using ulp_pos [of x] by (simp add: mult_right_mono)
  then show ?thesis using ulp_pos [of x] by simp
next
  case False
  then have e: "- 1022 < binade x" and small: "\<bar>r\<bar> < 2 powi (binade x)"
    using binade_range(1) [of x] by simp_all
  from binade_lower [OF e] have big: "2 powi (binade x) \<le> \<bar>x\<bar>" .
  with small assms(2) have neg: "x \<le> - (2 powi (binade x))" by linarith
  then have "x \<le> of_int (- (2 ^ 52)) * ulp x" unfolding this_binade by simp
  then have "x / ulp x \<le> of_int (- (2 ^ 52))"
    using ulp_pos [of x] by (simp add: pos_divide_le_eq)
  then have "round_half_even (x / ulp x) \<le> - (2 ^ 52)" by (rule round_half_even_le)
  then have "(of_int (round_half_even (x / ulp x)) :: real) \<le> of_int (- (2 ^ 52))"
    by (simp only: of_int_le_iff)
  then have "nearest x \<le> of_int (- (2 ^ 52)) * ulp x"
    unfolding nearest_def using ulp_pos [of x] by (simp only: mult_right_mono less_imp_le)
  also have "\<dots> = - (2 powi (binade x))" unfolding this_binade by simp
  finally show ?thesis using small by linarith
qed

lemma nearest_ge:
  assumes "is_double r" "r \<le> x"
  shows "r \<le> nearest x"
proof (cases "binade x = - 1022 \<or> 2 powi (binade x) \<le> \<bar>r\<bar>")
  case True
  from double_on_grid [OF assms(1) True] obtain N where N: "r / ulp x = of_int N" by blast
  from assms(2) have "r / ulp x \<le> x / ulp x"
    using ulp_pos [of x] by (simp add: divide_right_mono)
  then have "N \<le> round_half_even (x / ulp x)" unfolding N by (rule round_half_even_ge)
  then have "(of_int N :: real) \<le> of_int (round_half_even (x / ulp x))" by simp
  then have "r / ulp x * ulp x \<le> nearest x"
    unfolding nearest_def N using ulp_pos [of x] by (simp add: mult_right_mono)
  then show ?thesis using ulp_pos [of x] by simp
next
  case False
  then have e: "- 1022 < binade x" and small: "\<bar>r\<bar> < 2 powi (binade x)"
    using binade_range(1) [of x] by simp_all
  from binade_lower [OF e] have big: "2 powi (binade x) \<le> \<bar>x\<bar>" .
  with small assms(2) have pos: "2 powi (binade x) \<le> x" by linarith
  then have "of_int (2 ^ 52) * ulp x \<le> x" unfolding this_binade by simp
  then have "of_int (2 ^ 52) \<le> x / ulp x"
    using ulp_pos [of x] by (simp add: pos_le_divide_eq)
  then have "2 ^ 52 \<le> round_half_even (x / ulp x)" by (rule round_half_even_ge)
  then have "(of_int (2 ^ 52) :: real) \<le> of_int (round_half_even (x / ulp x))"
    by (simp only: of_int_le_iff)
  then have "of_int (2 ^ 52) * ulp x \<le> nearest x"
    unfolding nearest_def using ulp_pos [of x] by (simp only: mult_right_mono less_imp_le)
  moreover have "of_int (2 ^ 52) * ulp x = 2 powi (binade x)" unfolding this_binade by simp
  ultimately show ?thesis using small by linarith
qed

lemma huge_pos: "0 < huge"
  by (simp add: huge_def)

lemma is_double_bound: "is_double r \<Longrightarrow> \<bar>r\<bar> < huge"
  using is_doubleE by blast

lemma is_double_0: "is_double 0"
  using is_doubleI [of 0 0] huge_pos by simp

lemma is_double_int:
  assumes "\<bar>m\<bar> \<le> 2 ^ 53"
  shows "is_double (of_int m)"
proof -
  have "\<bar>of_int m :: real\<bar> \<le> of_int (2 ^ 53)" using assms by (simp only: of_int_abs [symmetric] of_int_le_iff)
  also have "\<dots> = 2 powi 53" by simp
  also have "\<dots> < huge" unfolding huge_def by (simp only: powi2_less_iff)
  finally have "\<bar>of_int m * 2 powi 0 :: real\<bar> < huge" by simp
  from is_doubleI [OF assms _ this] show ?thesis by simp
qed

lemma round_double_exact: "is_double r \<Longrightarrow> round_double r = Fin r"
  by (simp add: is_double_def)

lemma round_double_not_NaN [simp]: "round_double x \<noteq> NaN"
  by (simp add: round_double_def)

lemma round_double_le:
  assumes "is_double r" "x \<le> r"
  shows "js_le (round_double x) (Fin r)"
proof -
  from nearest_le [OF assms] have n: "nearest x \<le> r" .
  from is_double_bound [OF assms(1)] have "r < huge" by linarith
  with n have "\<not> huge \<le> nearest x" by linarith
  with n show ?thesis by (simp add: round_double_def)
qed

lemma round_double_ge:
  assumes "is_double r" "r \<le> x"
  shows "js_le (Fin r) (round_double x)"
proof -
  from nearest_ge [OF assms] have n: "r \<le> nearest x" .
  from is_double_bound [OF assms(1)] have "- huge < r" by linarith
  with n have "\<not> nearest x \<le> - huge" by linarith
  with n show ?thesis by (simp add: round_double_def)
qed

lemma nearest_huge:
  assumes "huge \<le> x"
  shows "huge \<le> nearest x"
proof -
  have "(2 :: real) powi 1023 \<le> huge" unfolding huge_def by (simp only: powi2_le_iff)
  with assms have "2 powi 1023 \<le> \<bar>x\<bar>" by linarith
  then have e: "binade x = 1023" by (intro binade_eqI) simp_all
  from assms have "of_int (2 ^ 53) * ulp x \<le> x" unfolding huge_ulp [OF e] by simp
  then have "of_int (2 ^ 53) \<le> x / ulp x" using ulp_pos [of x] by (simp add: pos_le_divide_eq)
  then have "2 ^ 53 \<le> round_half_even (x / ulp x)" by (rule round_half_even_ge)
  then have "(of_int (2 ^ 53) :: real) \<le> of_int (round_half_even (x / ulp x))"
    by (simp only: of_int_le_iff)
  then have "of_int (2 ^ 53) * ulp x \<le> nearest x"
    unfolding nearest_def using ulp_pos [of x] by (simp only: mult_right_mono less_imp_le)
  then show ?thesis unfolding huge_ulp [OF e] by simp
qed

text \<open>A multiple of \<open>2^-n\<close> with at most 53 bits is a double.\<close>

lemma is_double_dyadic:
  assumes "of_int \<lfloor>x * 2 ^ n\<rfloor> = x * 2 ^ n" "\<bar>x\<bar> * 2 ^ n \<le> 2 ^ 53" "n \<le> 1074"
  shows "is_double x"
proof -
  let ?m = "\<lfloor>x * 2 ^ n\<rfloor>"
  have p: "(2 :: real) powi (- int n) = 1 / 2 ^ n"
    by (simp add: power_int_minus_divide)
  have x: "x = of_int ?m * 2 powi (- int n)"
    unfolding assms(1) p by simp
  have "\<bar>of_int ?m :: real\<bar> \<le> 2 ^ 53"
    unfolding assms(1) using assms(2) by (simp add: abs_mult)
  then have "(of_int \<bar>?m\<bar> :: real) \<le> of_int (2 ^ 53)" by simp
  then have m: "\<bar>?m\<bar> \<le> 2 ^ 53" by (simp only: of_int_le_iff)
  have k: "- 1074 \<le> - int n" using assms(3) by simp
  have "\<bar>x\<bar> \<le> \<bar>x\<bar> * 2 ^ n"
    using mult_left_mono [of 1 "2 ^ n :: real" "\<bar>x\<bar>"] by simp
  also have "\<dots> \<le> 2 powi 53" using assms(2) by simp
  also have "\<dots> < huge" unfolding huge_def by (simp only: powi2_less_iff)
  finally have "\<bar>of_int ?m * 2 powi (- int n) :: real\<bar> < huge" using x by simp
  from is_doubleI [OF m k this] x show ?thesis by simp
qed

text \<open>Rounding a given real, once its binade is known.\<close>

lemma round_double_eval:
  assumes e: "- 1022 \<le> e" "e \<le> 1023"
      and lo: "e = - 1022 \<or> 2 powi e \<le> \<bar>x\<bar>"
      and hi: "e = 1023 \<or> \<bar>x\<bar> < 2 powi (e + 1)"
      and n: "round_half_even (x / 2 powi (e - 52)) = n"
      and fin: "\<bar>of_int n * 2 powi (e - 52) :: real\<bar> < huge"
  shows "round_double x = Fin (of_int n * 2 powi (e - 52))"
proof -
  from binade_eqI [OF e lo hi] have b: "binade x = e" .
  have "nearest x = of_int n * 2 powi (e - 52)"
    unfolding nearest_def ulp_def b n ..
  with fin round_double_nearest [of x] show ?thesis by simp
qed

lemma js_le_trans_min:
  assumes "js_le a c" "b \<noteq> NaN"
  shows "js_le (Math_min a b) c" "js_le (Math_min b a) c"
  using assms by (cases a; cases b; cases c; simp)+

lemma js_lt_trans: "js_lt a b \<Longrightarrow> js_lt b c \<Longrightarrow> js_lt a c"
  by (cases a; cases b; cases c; simp)

lemma js_lt_le: "js_lt a b \<Longrightarrow> js_le a b"
  by (cases a; cases b; simp)

lemma js_lt_not_NaN: "js_lt a b \<Longrightarrow> a \<noteq> NaN \<and> b \<noteq> NaN"
  by (cases a; cases b; simp)

lemma round_double_evalI:
  assumes "- 1022 \<le> e" "e \<le> 1023"
      and "e = - 1022 \<or> 2 powi e \<le> \<bar>x\<bar>"
      and "e = 1023 \<or> \<bar>x\<bar> < 2 powi (e + 1)"
      and "round_half_even (x / 2 powi (e - 52)) = n"
      and "\<bar>of_int n * 2 powi (e - 52) :: real\<bar> < huge"
      and "r = of_int n * 2 powi (e - 52)"
  shows "round_double x = Fin r"
  unfolding assms(7) using assms(1-6) by (rule round_double_eval)

lemma MATCH_IOU_THRESH_eq: "MATCH_IOU_THRESH = Fin (5404319552844595 / 2 ^ 55)"
  unfolding MATCH_IOU_THRESH_def
  by (rule round_double_evalI [where e = "- 3" and n = 5404319552844595])
     (simp_all add: round_half_even_def huge_def)

lemma STABILITY_IOU_eq: "STABILITY_IOU = Fin (7385903388887613 / 2 ^ 53)"
  unfolding STABILITY_IOU_def
  by (rule round_double_evalI [where e = "- 1" and n = 7385903388887613])
     (simp_all add: round_half_even_def huge_def)

lemma step_threshold_eq: "round_double (5 / 100) = Fin (7205759403792794 / 2 ^ 57)"
  by (rule round_double_evalI [where e = "- 5" and n = 7205759403792794])
     (simp_all add: round_half_even_def huge_def)

lemma round_double_0 [simp]: "round_double 0 = Fin 0"
  using is_double_0 by (simp add: is_double_def)

lemma round_double_1 [simp]: "round_double 1 = Fin 1"
  using is_double_int [of 1] by (simp add: is_double_def)

section \<open>Intersection over union\<close>

lemma overlap_len_zero_iff: "overlap_len lo1 hi1 lo2 hi2 = 0 \<longleftrightarrow> min hi1 hi2 \<le> max lo1 lo2"
proof -
  have "max 0 d = 0 \<longleftrightarrow> d \<le> 0" for d :: real by (auto simp: max_def)
  then show ?thesis unfolding overlap_len_def by simp
qed

lemma overlap_len_pos:
  "\<not> min hi1 hi2 \<le> max lo1 lo2 \<Longrightarrow> overlap_len lo1 hi1 lo2 hi2 = min hi1 hi2 - max lo1 lo2"
  by (simp add: overlap_len_def)

lemma overlap_len_le: "0 < w \<Longrightarrow> overlap_len lo1 hi1 lo2 (lo2 + w) \<le> w"
  unfolding overlap_len_def by (simp add: max_def min_def)

lemma overlap_len_nonneg: "0 \<le> overlap_len lo1 hi1 lo2 hi2"
  by (simp add: overlap_len_def)

lemma inter_le_areaB:
  assumes "0 < rect_width b" "0 < rect_height b"
  shows "intersectionArea a b \<le> area b"
  unfolding intersectionArea_def area_def
proof (rule mult_mono)
  show "overlap_width a b \<le> rect_width b"
    unfolding overlap_width_def using assms(1) by (rule overlap_len_le)
  show "overlap_height a b \<le> rect_height b"
    unfolding overlap_height_def using assms(2) by (rule overlap_len_le)
  show "0 \<le> rect_width b" using assms by simp
  show "0 \<le> overlap_height a b"
    unfolding overlap_height_def by (rule overlap_len_nonneg)
qed

lemma union_pos:
  assumes "0 < rect_width a" "0 < rect_height a" "0 < rect_width b" "0 < rect_height b"
  shows "0 < unionArea a b"
proof -
  have "0 < area a" using assms by (simp add: area_def)
  with inter_le_areaB [OF assms(3,4), of a] show ?thesis unfolding unionArea_def by linarith
qed

text \<open>Extents that do not overlap in exact arithmetic do not overlap in doubles.\<close>

lemma no_overlap_rounded:
  assumes "is_double lo1" "is_double lo2" "min (lo1 + w1) (lo2 + w2) \<le> max lo1 lo2"
  shows "js_le (Math_min (js_plus (Fin lo1) (Fin w1)) (js_plus (Fin lo2) (Fin w2)))
               (Math_max (Fin lo1) (Fin lo2))"
proof -
  have d: "is_double (max lo1 lo2)" using assms(1,2) by (simp add: max_def)
  from assms(3) have "lo1 + w1 \<le> max lo1 lo2 \<or> lo2 + w2 \<le> max lo1 lo2"
    by (simp add: min_le_iff_disj)
  then show ?thesis
  proof
    assume "lo1 + w1 \<le> max lo1 lo2"
    with d have "js_le (round_double (lo1 + w1)) (Fin (max lo1 lo2))" by (rule round_double_le)
    then have "js_le (Math_min (round_double (lo1 + w1)) (round_double (lo2 + w2)))
                 (Fin (max lo1 lo2))"
      by (rule js_le_trans_min(1)) simp
    then show ?thesis by simp
  next
    assume "lo2 + w2 \<le> max lo1 lo2"
    with d have "js_le (round_double (lo2 + w2)) (Fin (max lo1 lo2))" by (rule round_double_le)
    then have "js_le (Math_min (round_double (lo1 + w1)) (round_double (lo2 + w2)))
                 (Fin (max lo1 lo2))"
      by (rule js_le_trans_min(2)) simp
    then show ?thesis by simp
  qed
qed

lemma iou_no_overlap:
  assumes "double_rect a" "double_rect b" "intersectionArea a b = 0"
  shows "iou (box_of a) (box_of b) = Fin 0"
proof -
  from assms(3) have "overlap_width a b = 0 \<or> overlap_height a b = 0"
    by (simp add: intersectionArea_def)
  then have "js_le (Math_min (js_plus (Fin (rect_x a)) (Fin (rect_width a)))
                             (js_plus (Fin (rect_x b)) (Fin (rect_width b))))
                   (Math_max (Fin (rect_x a)) (Fin (rect_x b)))
           \<or> js_le (Math_min (js_plus (Fin (rect_y a)) (Fin (rect_height a)))
                             (js_plus (Fin (rect_y b)) (Fin (rect_height b))))
                   (Math_max (Fin (rect_y a)) (Fin (rect_y b)))"
  proof
    assume "overlap_width a b = 0"
    then have "min (rect_x a + rect_width a) (rect_x b + rect_width b)
                 \<le> max (rect_x a) (rect_x b)"
      by (simp only: overlap_width_def overlap_len_zero_iff)
    with assms(1,2) show ?thesis
      by (intro disjI1 no_overlap_rounded) (simp_all add: double_rect_def)
  next
    assume "overlap_height a b = 0"
    then have "min (rect_y a + rect_height a) (rect_y b + rect_height b)
                 \<le> max (rect_y a) (rect_y b)"
      by (simp only: overlap_height_def overlap_len_zero_iff)
    with assms(1,2) show ?thesis
      by (intro disjI2 no_overlap_rounded) (simp_all add: double_rect_def)
  qed
  then show ?thesis
    unfolding iou_def box_of_def Let_def by (simp only: BoundingBox.simps if_True)
qed

text \<open>Without rounding before the division, the quotient of the exact areas is rounded.\<close>

lemma iou_exact_steps:
  assumes ex: "exact_steps a b"
      and pos: "0 < rect_width a" "0 < rect_height a" "0 < rect_width b" "0 < rect_height b"
  shows "iou (box_of a) (box_of b) = round_double (intersectionArea a b / unionArea a b)"
proof -
  let ?ix1 = "max (rect_x a) (rect_x b)"
  let ?ix2 = "min (rect_x a + rect_width a) (rect_x b + rect_width b)"
  let ?iy1 = "max (rect_y a) (rect_y b)"
  let ?iy2 = "min (rect_y a + rect_height a) (rect_y b + rect_height b)"
  from ex have sums:
    "round_double (rect_x a + rect_width a) = Fin (rect_x a + rect_width a)"
    "round_double (rect_y a + rect_height a) = Fin (rect_y a + rect_height a)"
    "round_double (rect_x b + rect_width b) = Fin (rect_x b + rect_width b)"
    "round_double (rect_y b + rect_height b) = Fin (rect_y b + rect_height b)"
    by (simp_all add: exact_steps_def is_double_def)
  from ex have rest:
    "round_double (overlap_width a b) = Fin (overlap_width a b)"
    "round_double (overlap_height a b) = Fin (overlap_height a b)"
    "round_double (intersectionArea a b) = Fin (intersectionArea a b)"
    "round_double (area a) = Fin (area a)"
    "round_double (area b) = Fin (area b)"
    "round_double (area a + area b) = Fin (area a + area b)"
    "round_double (unionArea a b) = Fin (unionArea a b)"
    by (simp_all add: exact_steps_def is_double_def)
  have head: "iou (box_of a) (box_of b) =
      (if ?ix2 \<le> ?ix1 \<or> ?iy2 \<le> ?iy1 then Fin 0
       else let inter = js_times (js_minus (Fin ?ix2) (Fin ?ix1)) (js_minus (Fin ?iy2) (Fin ?iy1));
                areaA = js_times (Fin (rect_width a)) (Fin (rect_height a));
                areaB = js_times (Fin (rect_width b)) (Fin (rect_height b));
                union = js_minus (js_plus areaA areaB) inter
            in if js_le union (Fin 0) then Fin 0 else js_div inter union)"
    unfolding iou_def box_of_def
    by (simp only: BoundingBox.simps Let_def js_plus.simps sums Math_max.simps Math_min.simps
        js_le.simps)
  show ?thesis
  proof (cases "?ix2 \<le> ?ix1 \<or> ?iy2 \<le> ?iy1")
    case True
    then have "overlap_width a b = 0 \<or> overlap_height a b = 0"
      by (simp only: overlap_width_def overlap_height_def overlap_len_zero_iff)
    then have "intersectionArea a b = 0" by (auto simp: intersectionArea_def)
    with True head show ?thesis by simp
  next
    case False
    then have x: "\<not> ?ix2 \<le> ?ix1" and y: "\<not> ?iy2 \<le> ?iy1" by blast+
    have w: "?ix2 - ?ix1 = overlap_width a b"
      unfolding overlap_width_def by (simp only: overlap_len_pos [OF x])
    have h: "?iy2 - ?iy1 = overlap_height a b"
      unfolding overlap_height_def by (simp only: overlap_len_pos [OF y])
    have dw: "js_minus (Fin ?ix2) (Fin ?ix1) = Fin (overlap_width a b)"
      using rest(1) by (simp add: js_minus_def w)
    have dh: "js_minus (Fin ?iy2) (Fin ?iy1) = Fin (overlap_height a b)"
      using rest(2) by (simp add: js_minus_def h)
    have inter: "js_times (Fin (overlap_width a b)) (Fin (overlap_height a b))
                   = Fin (intersectionArea a b)"
      using rest(3) by (simp add: intersectionArea_def)
    have aa: "js_times (Fin (rect_width a)) (Fin (rect_height a)) = Fin (area a)"
      using rest(4) by (simp add: area_def)
    have ab: "js_times (Fin (rect_width b)) (Fin (rect_height b)) = Fin (area b)"
      using rest(5) by (simp add: area_def)
    have sum: "js_plus (Fin (area a)) (Fin (area b)) = Fin (area a + area b)"
      using rest(6) by simp
    have un: "js_minus (Fin (area a + area b)) (Fin (intersectionArea a b)) = Fin (unionArea a b)"
      using rest(7) by (simp add: js_minus_def unionArea_def)
    from union_pos [OF pos] have u: "\<not> unionArea a b \<le> 0" "unionArea a b \<noteq> 0" by simp_all
    from False head have "iou (box_of a) (box_of b) =
        (if js_le (Fin (unionArea a b)) (Fin 0) then Fin 0
         else js_div (Fin (intersectionArea a b)) (Fin (unionArea a b)))"
      by (simp only: if_False Let_def dw dh inter aa ab sum un)
    with u show ?thesis by simp
  qed
qed

text \<open>
  A box against itself: when subtracting the corner from the rounded sum gives back the
  width and the height, the intersection is the area, and the union is the area again as
  long as twice the area does not overflow.
\<close>

lemma iou_self:
  assumes w: "js_minus (js_plus (Fin x) (Fin w)) (Fin x) = Fin w" "0 < w"
      and h: "js_minus (js_plus (Fin y) (Fin h)) (Fin y) = Fin h" "0 < h"
      and pos: "js_lt (Fin 0) (js_times (Fin w) (Fin h))"
      and fin: "js_lt (js_plus (js_times (Fin w) (Fin h)) (js_times (Fin w) (Fin h))) PosInf"
  shows "iou \<lparr>bbox_x = Fin x, bbox_y = Fin y, bbox_width = Fin w, bbox_height = Fin h\<rparr>
             \<lparr>bbox_x = Fin x, bbox_y = Fin y, bbox_width = Fin w, bbox_height = Fin h\<rparr> = Fin 1"
proof -
  have corner: "\<exists>c. js_plus (Fin p) (Fin d) = Fin c \<and> \<not> c \<le> p"
    if "js_minus (js_plus (Fin p) (Fin d)) (Fin p) = Fin d" "0 < d" "is_double 0" for p d
  proof (cases "js_plus (Fin p) (Fin d)")
    case (Fin c)
    have "\<not> c \<le> p"
    proof
      assume "c \<le> p"
      then have "c - p \<le> 0" by simp
      with that(3) have "js_le (round_double (c - p)) (Fin 0)" by (rule round_double_le)
      moreover from that(1) have "round_double (c - p) = Fin d"
        unfolding Fin js_minus_def by simp
      ultimately show False using that(2) by simp
    qed
    with Fin show ?thesis by simp
  next
    case NaN
    then show ?thesis by simp
  next
    case PosInf
    with that(1) show ?thesis by (simp add: js_minus_def)
  next
    case NegInf
    with that(1) show ?thesis by (simp add: js_minus_def)
  qed
  from corner [OF w is_double_0] obtain cx where
    cx: "js_plus (Fin x) (Fin w) = Fin cx" "\<not> cx \<le> x" by blast
  from corner [OF h is_double_0] obtain cy where
    cy: "js_plus (Fin y) (Fin h) = Fin cy" "\<not> cy \<le> y" by blast
  from pos fin obtain A where A: "js_times (Fin w) (Fin h) = Fin A" "0 < A"
    by (cases "js_times (Fin w) (Fin h)") simp_all
  from A(1) have dA: "is_double A" by (simp add: round_double_is_double)
  from fin have "js_lt (round_double (A + A)) PosInf"
    unfolding A(1) js_plus.simps .
  then have np: "round_double (A + A) \<noteq> PosInf" by auto
  have twice: "round_double (A + A) = Fin (A + A)"
  proof -
    from is_doubleE [OF dA] obtain m k where
      r: "A = of_int m * 2 powi k" and m: "\<bar>m\<bar> < 2 ^ 53" and k: "- 1074 \<le> k" by blast
    have eq: "A + A = of_int m * 2 powi (k + 1)"
      unfolding r using powi2_split [of k 1] by simp
    have aa: "A \<le> A + A" using A(2) by simp
    have "\<bar>A + A\<bar> < huge"
    proof (rule ccontr)
      assume "\<not> \<bar>A + A\<bar> < huge"
      with A(2) have big: "huge \<le> A + A" by simp
      then have "huge \<le> nearest (A + A)" by (rule nearest_huge)
      then have "round_double (A + A) = PosInf" unfolding round_double_def by (simp only: if_True)
      with np show False by contradiction
    qed
    then have "\<bar>of_int m * 2 powi (k + 1) :: real\<bar> < huge" unfolding eq .
    moreover from m have "\<bar>m\<bar> \<le> 2 ^ 53" by simp
    moreover from k have "- 1074 \<le> k + 1" by simp
    ultimately show ?thesis unfolding eq by (intro round_double_rep)
  qed
  from twice have twice': "js_plus (Fin A) (Fin A) = Fin (A + A)"
    by (simp only: js_plus.simps)
  from w(1) cx(1) have dx: "js_minus (Fin cx) (Fin x) = Fin w" by simp
  from h(1) cy(1) have dy: "js_minus (Fin cy) (Fin y) = Fin h" by simp
  have "js_minus (Fin (A + A)) (Fin A) = round_double (A + A + - A)"
    unfolding js_minus_def js_neg.simps js_plus.simps ..
  also have "A + A + - A = A" by simp
  finally have un: "js_minus (Fin (A + A)) (Fin A) = Fin A"
    using dA by (simp only: is_double_def)
  have "iou \<lparr>bbox_x = Fin x, bbox_y = Fin y, bbox_width = Fin w, bbox_height = Fin h\<rparr>
            \<lparr>bbox_x = Fin x, bbox_y = Fin y, bbox_width = Fin w, bbox_height = Fin h\<rparr>
        = (if js_le (Fin A) (Fin 0) then Fin 0 else js_div (Fin A) (Fin A))"
    unfolding iou_def
    using cx(2) cy(2)
    by (simp only: BoundingBox.simps Let_def cx(1) cy(1) Math_max.simps Math_min.simps
        js_le.simps max.idem min.idem dx dy A(1) twice' un simp_thms if_False)
  with A(2) show ?thesis by simp
qed

text \<open>
  Boxes whose coordinates are multiples of \<open>2^-26\<close> in the unit square: every step of
  \<^verbatim>\<open>iou\<close> before the division is exact.
\<close>

lemma is_double_scaled:
  assumes "\<bar>N\<bar> \<le> 2 ^ 53" "n \<le> 1074"
  shows "is_double (of_int N / 2 ^ n)"
proof (rule is_double_dyadic [where n = n])
  show "of_int \<lfloor>of_int N / 2 ^ n * (2 :: real) ^ n\<rfloor> = of_int N / 2 ^ n * (2 :: real) ^ n"
    by simp
  have "(of_int \<bar>N\<bar> :: real) \<le> of_int (2 ^ 53)" using assms(1) by (simp only: of_int_le_iff)
  then show "\<bar>of_int N / 2 ^ n :: real\<bar> * 2 ^ n \<le> 2 ^ 53" by simp
  show "n \<le> 1074" by (rule assms(2))
qed

lemma exact_steps_round_trip:
  assumes "exact_steps a a" "double_rect a" "0 < rect_width a" "0 < rect_height a"
  shows "round_trip a"
proof -
  from assms(1) have s: "round_double (rect_x a + rect_width a) = Fin (rect_x a + rect_width a)"
    "round_double (rect_y a + rect_height a) = Fin (rect_y a + rect_height a)"
    "round_double (area a) = Fin (area a)"
    "round_double (area a + area a) = Fin (area a + area a)"
    by (simp_all add: exact_steps_def is_double_def)
  from assms(2) have d: "round_double (rect_width a) = Fin (rect_width a)"
    "round_double (rect_height a) = Fin (rect_height a)"
    by (simp_all add: double_rect_def is_double_def)
  have "0 < area a" using assms(3,4) by (simp add: area_def)
  then show ?thesis
    unfolding round_trip_def js_minus_def js_neg.simps js_plus.simps js_times.simps s
    using s(3,4) d by (simp add: area_def)
qed

lemma overlap_len_grid:
  fixes c :: real
  assumes "0 < c"
  shows "overlap_len (of_int l1 / c) (of_int h1 / c) (of_int l2 / c) (of_int h2 / c)
           = of_int (max 0 (min h1 h2 - max l1 l2)) / c"
proof -
  have mn: "min (of_int h1 / c) (of_int h2 / c) = of_int (min h1 h2) / c"
    using assms by (simp add: min_def divide_le_cancel)
  have mx: "max (of_int l1 / c) (of_int l2 / c) = of_int (max l1 l2) / c"
    using assms by (simp add: max_def divide_le_cancel)
  have "max 0 (of_int (min h1 h2) / c - of_int (max l1 l2) / c)
          = of_int (max 0 (min h1 h2 - max l1 l2)) / c"
  proof -
    have e1: "of_int (min h1 h2) / c - of_int (max l1 l2) / c
                = of_int (min h1 h2 - max l1 l2) / c"
      by (simp add: diff_divide_distrib)
    have e2: "max 0 (of_int k / c) = of_int (max 0 k) / c" for k :: int
      using assms by (simp add: max_def zero_le_divide_iff)
    show ?thesis by (simp only: e1 e2)
  qed
  then show ?thesis unfolding overlap_len_def mn mx .
qed

lemma grid_boxes_exact:
  assumes a: "0 \<le> ax" "ax \<le> 2 ^ 26" "0 \<le> ay" "ay \<le> 2 ^ 26"
             "0 < aw" "aw \<le> 2 ^ 26" "0 < ah" "ah \<le> 2 ^ 26"
      and b: "0 \<le> bx" "bx \<le> 2 ^ 26" "0 \<le> by'" "by' \<le> 2 ^ 26"
             "0 < bw" "bw \<le> 2 ^ 26" "0 < bh" "bh \<le> 2 ^ 26"
  shows "double_rect (grid_rect ax ay aw ah)"
    and "exact_steps (grid_rect ax ay aw ah) (grid_rect bx by' bw bh)"
proof -
  let ?a = "grid_rect ax ay aw ah" and ?b = "grid_rect bx by' bw bh"
  define iw where "iw = max 0 (min (ax + aw) (bx + bw) - max ax bx)"
  define ih where "ih = max 0 (min (ay + ah) (by' + bh) - max ay by')"
  have iw: "0 \<le> iw" "iw \<le> 2 ^ 26" and ih: "0 \<le> ih" "ih \<le> 2 ^ 26"
    and iwb: "iw \<le> bw" and ihb: "ih \<le> bh"
    using a b unfolding iw_def ih_def by simp_all
  show "double_rect ?a"
    unfolding double_rect_def grid_rect_def Rect.simps using a
    by (intro conjI is_double_scaled) simp_all
  have sum: "of_int p / 2 ^ 26 + of_int q / 2 ^ 26 = (of_int (p + q) / 2 ^ 26 :: real)" for p q
    by (simp add: add_divide_distrib)
  have ow: "overlap_width ?a ?b = of_int iw / 2 ^ 26"
    unfolding overlap_width_def grid_rect_def Rect.simps sum iw_def
    by (rule overlap_len_grid) simp
  have oh: "overlap_height ?a ?b = of_int ih / 2 ^ 26"
    unfolding overlap_height_def grid_rect_def Rect.simps sum ih_def
    by (rule overlap_len_grid) simp
  have prod: "of_int p / 2 ^ 26 * (of_int q / 2 ^ 26) = (of_int (p * q) / 2 ^ 52 :: real)" for p q
    by simp
  have ia: "intersectionArea ?a ?b = of_int (iw * ih) / 2 ^ 52"
    unfolding intersectionArea_def ow oh prod ..
  have aa: "area ?a = of_int (aw * ah) / 2 ^ 52" and ab: "area ?b = of_int (bw * bh) / 2 ^ 52"
    unfolding area_def grid_rect_def Rect.simps prod by simp_all
  have pb: "0 \<le> p * q \<and> p * q \<le> 2 ^ 52" if "0 \<le> p" "p \<le> 2 ^ 26" "0 \<le> q" "q \<le> 2 ^ 26"
    for p q :: int
  proof -
    from that have "p * q \<le> 2 ^ 26 * 2 ^ 26" by (intro mult_mono) simp_all
    with that show ?thesis by simp
  qed
  define A where "A = aw * ah"
  define B where "B = bw * bh"
  define I where "I = iw * ih"
  from pb [OF iw ih] have I: "0 \<le> I" "I \<le> 2 ^ 52" unfolding I_def by simp_all
  from a have "0 \<le> aw" "0 \<le> ah" by simp_all
  from pb [OF this(1) a(6) this(2) a(8)] have A: "0 \<le> A" "A \<le> 2 ^ 52"
    unfolding A_def by simp_all
  from b have "0 \<le> bw" "0 \<le> bh" by simp_all
  from pb [OF this(1) b(6) this(2) b(8)] have B: "0 \<le> B" "B \<le> 2 ^ 52"
    unfolding B_def by simp_all
  have le: "I \<le> B" unfolding I_def B_def using iwb ihb iw ih b by (intro mult_mono) simp_all
  have sa: "area ?a + area ?b = of_int (A + B) / 2 ^ 52"
    unfolding aa ab A_def B_def by (simp add: add_divide_distrib)
  have ua: "unionArea ?a ?b = of_int (A + B - I) / 2 ^ 52"
    unfolding unionArea_def sa ia I_def by (simp add: diff_divide_distrib)
  have corner: "is_double (of_int p / 2 ^ 26 + of_int q / 2 ^ 26)"
    if "0 \<le> p" "p \<le> 2 ^ 26" "0 \<le> q" "q \<le> 2 ^ 26" for p q :: int
    unfolding sum using that by (intro is_double_scaled) simp_all
  have d1: "is_double (rect_x ?a + rect_width ?a)" "is_double (rect_y ?a + rect_height ?a)"
    unfolding grid_rect_def Rect.simps using a by (simp_all only: corner less_imp_le)
  have d2: "is_double (rect_x ?b + rect_width ?b)" "is_double (rect_y ?b + rect_height ?b)"
    unfolding grid_rect_def Rect.simps using b by (simp_all only: corner less_imp_le)
  have d3: "is_double (overlap_width ?a ?b)" "is_double (overlap_height ?a ?b)"
    unfolding ow oh using iw ih by (intro is_double_scaled; simp)+
  have d4: "is_double (intersectionArea ?a ?b)"
    unfolding ia I_def [symmetric] using I by (intro is_double_scaled) simp_all
  have d5: "is_double (area ?a)" "is_double (area ?b)"
    unfolding aa ab A_def [symmetric] B_def [symmetric] using A B
    by (intro is_double_scaled; simp)+
  have d6: "is_double (area ?a + area ?b)"
    unfolding sa using A B by (intro is_double_scaled) simp_all
  have d7: "is_double (unionArea ?a ?b)"
    unfolding ua using A B I le by (intro is_double_scaled) simp_all
  from d1 d2 d3 d4 d5 d6 d7 show "exact_steps ?a ?b"
    unfolding exact_steps_def by (simp only: simp_thms)
qed


lemma iou_grid:
  assumes a: "0 \<le> ax" "ax \<le> 2 ^ 26" "0 \<le> ay" "ay \<le> 2 ^ 26"
             "0 < aw" "aw \<le> 2 ^ 26" "0 < ah" "ah \<le> 2 ^ 26"
      and b: "0 \<le> bx" "bx \<le> 2 ^ 26" "0 \<le> by'" "by' \<le> 2 ^ 26"
             "0 < bw" "bw \<le> 2 ^ 26" "0 < bh" "bh \<le> 2 ^ 26"
  shows "iou (box_of (grid_rect ax ay aw ah)) (box_of (grid_rect bx by' bw bh))
           = round_double (intersectionArea (grid_rect ax ay aw ah) (grid_rect bx by' bw bh)
                           / unionArea (grid_rect ax ay aw ah) (grid_rect bx by' bw bh))"
    and "iou (box_of (grid_rect ax ay aw ah)) (box_of (grid_rect ax ay aw ah)) = Fin 1"
proof -
  let ?a = "grid_rect ax ay aw ah" and ?b = "grid_rect bx by' bw bh"
  have pa: "0 < rect_width ?a" "0 < rect_height ?a" using a by (simp_all add: grid_rect_def)
  have pb: "0 < rect_width ?b" "0 < rect_height ?b" using b by (simp_all add: grid_rect_def)
  from grid_boxes_exact(2) [OF a b] pa pb
  show "iou (box_of ?a) (box_of ?b) = round_double (intersectionArea ?a ?b / unionArea ?a ?b)"
    by (rule iou_exact_steps)
  from grid_boxes_exact(2) [OF a a] grid_boxes_exact(1) [OF a b] pa
  have "round_trip ?a" by (rule exact_steps_round_trip)
  with pa show "iou (box_of ?a) (box_of ?a) = Fin 1"
    unfolding round_trip_def box_of_def by (intro iou_self) simp_all
qed

text \<open>
  The box \<^verbatim>\<open>{x: 0.1, y: 0.1, width: 0.2, height: 0.2}\<close> against itself, step by step: the
  corner sum 0.1 + 0.2 is rounded up, so the overlap comes out wider than the box, and the
  quotient is the double next above 1.
\<close>

lemma iou_tenths:
  "iou \<lparr>bbox_x = round_double (1 / 10), bbox_y = round_double (1 / 10),
        bbox_width = round_double (2 / 10), bbox_height = round_double (2 / 10)\<rparr>
       \<lparr>bbox_x = round_double (1 / 10), bbox_y = round_double (1 / 10),
        bbox_width = round_double (2 / 10), bbox_height = round_double (2 / 10)\<rparr>
     = Fin (1 + 1 / 2 ^ 51)"
proof -
  define p :: real where "p = 7205759403792794 / 2 ^ 56"
  define d :: real where "d = 7205759403792794 / 2 ^ 55"
  define c :: real where "c = 5404319552844596 / 2 ^ 54"
  define v :: real where "v = 7205759403792795 / 2 ^ 55"
  define i :: real where "i = 5764607523034237 / 2 ^ 57"
  define A :: real where "A = 5764607523034236 / 2 ^ 57"
  define S :: real where "S = 5764607523034236 / 2 ^ 56"
  define U :: real where "U = 5764607523034235 / 2 ^ 57"
  have p: "round_double (1 / 10) = Fin p"
    unfolding p_def
    by (rule round_double_evalI [where e = "- 4" and n = 7205759403792794])
       (simp_all add: round_half_even_def huge_def)
  have d: "round_double (2 / 10) = Fin d"
    unfolding d_def
    by (rule round_double_evalI [where e = "- 3" and n = 7205759403792794])
       (simp_all add: round_half_even_def huge_def)
  have c: "js_plus (Fin p) (Fin d) = Fin c"
    unfolding p_def d_def c_def js_plus.simps
    by (rule round_double_evalI [where e = "- 2" and n = 5404319552844596])
       (simp_all add: round_half_even_def huge_def)
  have v: "js_minus (Fin c) (Fin p) = Fin v"
    unfolding p_def c_def v_def js_minus_def js_neg.simps js_plus.simps
    by (rule round_double_evalI [where e = "- 3" and n = 7205759403792795])
       (simp_all add: round_half_even_def huge_def)
  have i: "js_times (Fin v) (Fin v) = Fin i"
    unfolding v_def i_def js_times.simps
    by (rule round_double_evalI [where e = "- 5" and n = 5764607523034237])
       (simp_all add: round_half_even_def huge_def)
  have A: "js_times (Fin d) (Fin d) = Fin A"
    unfolding d_def A_def js_times.simps
    by (rule round_double_evalI [where e = "- 5" and n = 5764607523034236])
       (simp_all add: round_half_even_def huge_def)
  have S: "js_plus (Fin A) (Fin A) = Fin S"
    unfolding A_def S_def js_plus.simps
    by (rule round_double_evalI [where e = "- 4" and n = 5764607523034236])
       (simp_all add: round_half_even_def huge_def)
  have U: "js_minus (Fin S) (Fin i) = Fin U"
    unfolding S_def i_def U_def js_minus_def js_neg.simps js_plus.simps
    by (rule round_double_evalI [where e = "- 5" and n = 5764607523034235])
       (simp_all add: round_half_even_def huge_def)
  have q: "js_div (Fin i) (Fin U) = Fin (1 + 1 / 2 ^ 51)"
  proof -
    have "round_double (i / U) = Fin (1 + 1 / 2 ^ 51)"
      unfolding i_def U_def
      by (rule round_double_evalI [where e = 0 and n = 4503599627370498])
         (simp_all add: round_half_even_def huge_def)
    moreover have "U \<noteq> 0" by (simp add: U_def)
    ultimately show ?thesis by simp
  qed
  have cmp: "\<not> c \<le> p" "\<not> U \<le> 0" by (simp_all add: c_def p_def U_def)
  show ?thesis
    unfolding iou_def p d
    using cmp
    by (simp only: BoundingBox.simps Let_def c Math_max.simps Math_min.simps js_le.simps
        max.idem min.idem v i A S U q simp_thms if_False)
qed

text \<open>
  A box of width and height \<open>2^-60\<close> at the corner \<open>(1, 1)\<close>: the corner sums round to 1, so
  the box has no overlap with itself.
\<close>

lemma iou_thin:
  "iou \<lparr>bbox_x = Fin 1, bbox_y = Fin 1, bbox_width = Fin (1 / 2 ^ 60), bbox_height = Fin (1 / 2 ^ 60)\<rparr>
       \<lparr>bbox_x = Fin 1, bbox_y = Fin 1, bbox_width = Fin (1 / 2 ^ 60), bbox_height = Fin (1 / 2 ^ 60)\<rparr>
     = Fin 0"
proof -
  have c: "js_plus (Fin 1) (Fin (1 / 2 ^ 60)) = Fin 1"
    unfolding js_plus.simps
    by (rule round_double_evalI [where e = 0 and n = "2 ^ 52"])
       (simp_all add: round_half_even_def huge_def)
  show ?thesis
    unfolding iou_def
    by (simp only: BoundingBox.simps Let_def c Math_max.simps Math_min.simps js_le.simps
        max.idem min.idem simp_thms if_True order_refl)
qed

lemma tenth_eq: "round_double (1 / 10) = Fin (7205759403792794 / 2 ^ 56)"
  by (rule round_double_evalI [where e = "- 4" and n = 7205759403792794])
     (simp_all add: round_half_even_def huge_def)

lemma fifth_eq: "round_double (2 / 10) = Fin (7205759403792794 / 2 ^ 55)"
  by (rule round_double_evalI [where e = "- 3" and n = 7205759403792794])
     (simp_all add: round_half_even_def huge_def)

text \<open>
  Claim C7 as written, on the box \<^verbatim>\<open>{x: 0.1, y: 0.1, width: 0.2, height: 0.2}\<close>: its
  coordinates are the doubles nearest to 0.1 and 0.2, its width and height are positive,
  and its overlap with itself is not 1 but \<open>1 + 2^-51\<close>, the double next above 1
  (1.0000000000000004). For a box of width and height \<open>2^-60\<close> at \<open>(1, 1)\<close> the overlap with
  itself is 0.
\<close>

theorem iou_of_a_box_with_itself:
  "round_double (1 / 10) = Fin (7205759403792794 / 2 ^ 56)
   \<and> round_double (2 / 10) = Fin (7205759403792794 / 2 ^ 55)
   \<and> js_lt (Fin 0) (round_double (2 / 10))
   \<and> iou \<lparr>bbox_x = round_double (1 / 10), bbox_y = round_double (1 / 10),
           bbox_width = round_double (2 / 10), bbox_height = round_double (2 / 10)\<rparr>
          \<lparr>bbox_x = round_double (1 / 10), bbox_y = round_double (1 / 10),
           bbox_width = round_double (2 / 10), bbox_height = round_double (2 / 10)\<rparr>
        = Fin (1 + 1 / 2 ^ 51)
   \<and> iou \<lparr>bbox_x = round_double (1 / 10), bbox_y = round_double (1 / 10),
           bbox_width = round_double (2 / 10), bbox_height = round_double (2 / 10)\<rparr>
          \<lparr>bbox_x = round_double (1 / 10), bbox_y = round_double (1 / 10),
           bbox_width = round_double (2 / 10), bbox_height = round_double (2 / 10)\<rparr>
        \<noteq> Fin 1
   \<and> iou \<lparr>bbox_x = Fin 1, bbox_y = Fin 1,
           bbox_width = Fin (1 / 2 ^ 60), bbox_height = Fin (1 / 2 ^ 60)\<rparr>
          \<lparr>bbox_x = Fin 1, bbox_y = Fin 1,
           bbox_width = Fin (1 / 2 ^ 60), bbox_height = Fin (1 / 2 ^ 60)\<rparr>
        = Fin 0"
proof -
  have "js_lt (Fin 0) (round_double (2 / 10))" unfolding fifth_eq by simp
  moreover have "Fin (1 + 1 / 2 ^ 51) \<noteq> Fin 1" by simp
  ultimately show ?thesis
    using tenth_eq fifth_eq iou_thin unfolding iou_tenths by (simp only: simp_thms)
qed

text \<open>
  Claim C7, as the code computes it. For all boxes \<open>a\<close> and \<open>b\<close> whose coordinates are
  finite doubles and whose width and height are positive: when the rectangles do not
  overlap (their intersection has area zero in exact arithmetic), \<open>iou\<close> is exactly 0; when
  \<open>a = b\<close> and the corner sums give back width and height (\<open>round_trip\<close>), \<open>iou\<close> is exactly 1;
  and when no step before the division rounds (\<open>exact_steps\<close>), \<open>iou\<close> is the double
  nearest to the area of the intersection divided by the area of the union.
\<close>

theorem iou_geometry:
  assumes "double_rect a" "double_rect b"
      and "0 < rect_width a" "0 < rect_height a" "0 < rect_width b" "0 < rect_height b"
  shows "(intersectionArea a b = 0 \<longrightarrow> iou (box_of a) (box_of b) = Fin 0)
       \<and> (a = b \<and> round_trip a \<longrightarrow> iou (box_of a) (box_of b) = Fin 1)
       \<and> (exact_steps a b \<longrightarrow>
            iou (box_of a) (box_of b) = round_double (intersectionArea a b / unionArea a b))"
proof (intro conjI impI)
  show "iou (box_of a) (box_of b) = Fin 0" if "intersectionArea a b = 0"
    using assms(1,2) that by (rule iou_no_overlap)
  show "iou (box_of a) (box_of b) = round_double (intersectionArea a b / unionArea a b)"
    if "exact_steps a b"
    using that assms(3-6) by (rule iou_exact_steps)
  show "iou (box_of a) (box_of b) = Fin 1" if "a = b \<and> round_trip a"
  proof -
    from that have r: "round_trip a" and b: "b = a" by blast+
    from r assms(3,4) show ?thesis
      unfolding b box_of_def round_trip_def by (intro iou_self) simp_all
  qed
qed

lemma dyadic_doubles:
  "is_double 0" "is_double (1 / 2)" "is_double (1 / 4)" "is_double (3 / 4)" "is_double 1"
  "is_double (1 / 8)" "is_double (3 / 8)"
  by (rule is_double_dyadic [where n = 8], simp, simp, simp)+

theorem iou_geometry_witness:
  "intersectionArea \<lparr>rect_x = 0, rect_y = 0, rect_width = 1 / 2, rect_height = 1 / 2\<rparr>
         \<lparr>rect_x = 3 / 4, rect_y = 0, rect_width = 1 / 4, rect_height = 1 / 2\<rparr> = 0
   \<and> iou (box_of \<lparr>rect_x = 0, rect_y = 0, rect_width = 1 / 2, rect_height = 1 / 2\<rparr>)
         (box_of \<lparr>rect_x = 3 / 4, rect_y = 0, rect_width = 1 / 4, rect_height = 1 / 2\<rparr>) = Fin 0
   \<and> round_trip \<lparr>rect_x = 0, rect_y = 0, rect_width = 1 / 2, rect_height = 1 / 2\<rparr>
   \<and> iou (box_of \<lparr>rect_x = 0, rect_y = 0, rect_width = 1 / 2, rect_height = 1 / 2\<rparr>)
         (box_of \<lparr>rect_x = 0, rect_y = 0, rect_width = 1 / 2, rect_height = 1 / 2\<rparr>) = Fin 1
   \<and> exact_steps \<lparr>rect_x = 0, rect_y = 0, rect_width = 1 / 2, rect_height = 1 / 2\<rparr>
         \<lparr>rect_x = 1 / 4, rect_y = 0, rect_width = 1 / 2, rect_height = 1 / 2\<rparr>
   \<and> intersectionArea \<lparr>rect_x = 0, rect_y = 0, rect_width = 1 / 2, rect_height = 1 / 2\<rparr>
         \<lparr>rect_x = 1 / 4, rect_y = 0, rect_width = 1 / 2, rect_height = 1 / 2\<rparr> = 1 / 8
   \<and> unionArea \<lparr>rect_x = 0, rect_y = 0, rect_width = 1 / 2, rect_height = 1 / 2\<rparr>
         \<lparr>rect_x = 1 / 4, rect_y = 0, rect_width = 1 / 2, rect_height = 1 / 2\<rparr> = 3 / 8
   \<and> iou (box_of \<lparr>rect_x = 0, rect_y = 0, rect_width = 1 / 2, rect_height = 1 / 2\<rparr>)
         (box_of \<lparr>rect_x = 1 / 4, rect_y = 0, rect_width = 1 / 2, rect_height = 1 / 2\<rparr>)
       = round_double ((1 / 8) / (3 / 8))"
proof -
  let ?A = "\<lparr>rect_x = 0, rect_y = 0, rect_width = 1 / 2, rect_height = 1 / 2\<rparr>"
  let ?B = "\<lparr>rect_x = 1 / 4, rect_y = 0, rect_width = 1 / 2, rect_height = 1 / 2\<rparr>"
  let ?C = "\<lparr>rect_x = 3 / 4, rect_y = 0, rect_width = 1 / 4, rect_height = 1 / 2\<rparr>"
  have dA: "double_rect ?A" and dB: "double_rect ?B" and dC: "double_rect ?C"
    by (simp_all add: double_rect_def dyadic_doubles)
  have z: "intersectionArea ?A ?C = 0"
    by (simp add: intersectionArea_def overlap_width_def overlap_height_def overlap_len_def)
  have i: "intersectionArea ?A ?B = 1 / 8"
    by (simp add: intersectionArea_def overlap_width_def overlap_height_def overlap_len_def)
  have u: "unionArea ?A ?B = 3 / 8"
    by (simp add: unionArea_def area_def i)
  have rt: "round_trip ?A"
    by (simp add: round_trip_def js_minus_def round_double_exact dyadic_doubles)
  have ex: "exact_steps ?A ?B"
    unfolding exact_steps_def i u
    by (simp add: overlap_width_def overlap_height_def overlap_len_def area_def dyadic_doubles)
  have "iou (box_of ?A) (box_of ?C) = Fin 0"
    using iou_geometry [OF dA dC] z by simp
  moreover have "iou (box_of ?A) (box_of ?A) = Fin 1"
    using iou_geometry [OF dA dA] rt by simp
  moreover have "iou (box_of ?A) (box_of ?B) = round_double ((1 / 8) / (3 / 8))"
    using iou_geometry [OF dA dB] ex unfolding i u by simp
  ultimately show ?thesis using z rt ex i u by (simp only: simp_thms)
qed

section \<open>The two tracking operations\<close>

lemma bestMatch_Some:
  "bestMatch ov used cs i (b, v) = (Some k, v') \<Longrightarrow>
     (b = Some k \<and> v' = v) \<or>
     (i \<le> k \<and> k < i + length cs \<and> k \<notin> used \<and> v' = ov (cs ! (k - i)))"
proof (induction cs arbitrary: i b v)
  case Nil
  then show ?case by simp
next
  case (Cons c cs)
  show ?case
  proof (cases "i \<in> used")
    case True
    with Cons.prems have "bestMatch ov used cs (Suc i) (b, v) = (Some k, v')" by simp
    from Cons.IH [OF this] show ?thesis
      by (auto simp: Suc_diff_le)
  next
    case False
    show ?thesis
    proof (cases "js_gt (ov c) v")
      case True
      with False Cons.prems have "bestMatch ov used cs (Suc i) (Some i, ov c) = (Some k, v')"
        by (simp add: Let_def)
      from Cons.IH [OF this] False show ?thesis
        by (auto simp: Suc_diff_le)
    next
      case no: False
      with False Cons.prems have "bestMatch ov used cs (Suc i) (b, v) = (Some k, v')"
        by (simp add: Let_def)
      from Cons.IH [OF this] show ?thesis
        by (auto simp: Suc_diff_le)
    qed
  qed
qed

lemma bestMatch_start:
  assumes "bestMatch ov used cs 0 (None, v) = (Some k, v')"
  shows "k < length cs \<and> k \<notin> used \<and> v' = ov (cs ! k)"
  using bestMatch_Some [OF assms] by simp

lemma bestMatch_mono:
  "bestMatch ov used cs i (b, v) = (r, v') \<Longrightarrow> (r = b \<and> v' = v) \<or> js_gt v' v"
proof (induction cs arbitrary: i b v)
  case Nil
  then show ?case by simp
next
  case (Cons c cs)
  show ?case
  proof (cases "i \<notin> used \<and> js_gt (ov c) v")
    case True
    with Cons.prems have "bestMatch ov used cs (Suc i) (Some i, ov c) = (r, v')"
      by (simp add: Let_def)
    from Cons.IH [OF this] True show ?thesis by (auto intro: js_lt_trans)
  next
    case False
    with Cons.prems have "bestMatch ov used cs (Suc i) (b, v) = (r, v')"
      by (auto simp add: Let_def split: if_splits)
    from Cons.IH [OF this] show ?thesis .
  qed
qed

lemma merge_loop_length: "length (merge_loop displayed lerpT ts used) = length ts"
  by (induction ts arbitrary: used) (auto split: prod.splits option.splits simp: Let_def)

lemma merge_loop_items:
  "map snd (merge_loop displayed lerpT ts used)
     = map2 (merge_item displayed lerpT) (map fst (merge_loop displayed lerpT ts used)) ts"
proof (induction ts arbitrary: used)
  case Nil
  then show ?case by simp
next
  case (Cons t ts)
  obtain m v where bm:
    "bestMatch (\<lambda>c. iou (bbox c) (bbox t)) used displayed 0 (None, MATCH_IOU_THRESH) = (m, v)"
    by (cases "bestMatch (\<lambda>c. iou (bbox c) (bbox t)) used displayed 0 (None, MATCH_IOU_THRESH)")
  show ?case
  proof (cases m)
    case None
    with bm Cons.IH [of used] show ?thesis by (simp add: merge_item_def)
  next
    case (Some k)
    with bm bestMatch_start [of "\<lambda>c. iou (bbox c) (bbox t)" used displayed MATCH_IOU_THRESH k v]
    have "v = iou (bbox (displayed ! k)) (bbox t)" by simp
    with Some bm Cons.IH [of "insert k used"] show ?thesis
      by (simp add: merge_item_def Let_def)
  qed
qed

lemma merge_loop_matches:
  "distinct (List.map_filter id (map fst (merge_loop displayed lerpT ts used)))
   \<and> set (List.map_filter id (map fst (merge_loop displayed lerpT ts used))) \<inter> used = {}
   \<and> set (List.map_filter id (map fst (merge_loop displayed lerpT ts used)))
       \<subseteq> {..<length displayed}"
proof (induction ts arbitrary: used)
  case Nil
  then show ?case by (simp add: List.map_filter_simps)
next
  case (Cons t ts)
  obtain m v where bm:
    "bestMatch (\<lambda>c. iou (bbox c) (bbox t)) used displayed 0 (None, MATCH_IOU_THRESH) = (m, v)"
    by (cases "bestMatch (\<lambda>c. iou (bbox c) (bbox t)) used displayed 0 (None, MATCH_IOU_THRESH)")
  show ?case
  proof (cases m)
    case None
    with bm Cons.IH [of used] show ?thesis by (simp add: List.map_filter_simps)
  next
    case (Some k)
    with bm bestMatch_start [of "\<lambda>c. iou (bbox c) (bbox t)" used displayed MATCH_IOU_THRESH k v]
    have k: "k < length displayed" "k \<notin> used" by simp_all
    with Some bm Cons.IH [of "insert k used"] show ?thesis
      by (auto simp add: List.map_filter_simps Let_def)
  qed
qed

lemma merge_loop_threshold:
  "j < length ts \<Longrightarrow> map fst (merge_loop displayed lerpT ts used) ! j = Some i \<Longrightarrow>
     i < length displayed
     \<and> js_gt (iou (bbox (displayed ! i)) (bbox (ts ! j))) MATCH_IOU_THRESH"
proof (induction ts arbitrary: used j)
  case Nil
  then show ?case by simp
next
  case (Cons t ts)
  obtain m v where bm:
    "bestMatch (\<lambda>c. iou (bbox c) (bbox t)) used displayed 0 (None, MATCH_IOU_THRESH) = (m, v)"
    by (cases "bestMatch (\<lambda>c. iou (bbox c) (bbox t)) used displayed 0 (None, MATCH_IOU_THRESH)")
  show ?case
  proof (cases j)
    case 0
    with Cons.prems(2) bm have m: "m = Some i"
      by (cases m) (simp_all add: Let_def)
    from bm [unfolded m] bestMatch_start [of "\<lambda>c. iou (bbox c) (bbox t)" used displayed MATCH_IOU_THRESH i v]
    have "i < length displayed" "v = iou (bbox (displayed ! i)) (bbox t)" by simp_all
    moreover from bestMatch_mono [OF bm [unfolded m]] have "js_gt v MATCH_IOU_THRESH" by simp
    ultimately show ?thesis using 0 by simp
  next
    case (Suc j')
    show ?thesis
    proof (cases m)
      case None
      with bm Cons.prems Suc Cons.IH [of j' used] show ?thesis by simp
    next
      case (Some k)
      with bm Cons.prems Suc Cons.IH [of j' "insert k used"] show ?thesis
        by (simp add: Let_def)
    qed
  qed
qed

lemma appendUnused_length:
  "length (appendUnused used ts i) = card ({i..<i + length ts} - used)"
proof (induction ts arbitrary: i)
  case Nil
  then show ?case by simp
next
  case (Cons t ts)
  have split: "{i..<i + length (t # ts)} = insert i {Suc i..<Suc i + length ts}"
    by auto
  show ?case
  proof (cases "i \<in> used")
    case True
    then have "{i..<i + length (t # ts)} - used = {Suc i..<Suc i + length ts} - used"
      unfolding split by auto
    with True Cons.IH [of "Suc i"] show ?thesis by simp
  next
    case False
    then have "{i..<i + length (t # ts)} - used = insert i ({Suc i..<Suc i + length ts} - used)"
      unfolding split by auto
    moreover have "i \<notin> {Suc i..<Suc i + length ts} - used" by simp
    ultimately have "card ({i..<i + length (t # ts)} - used)
                      = Suc (card ({Suc i..<Suc i + length ts} - used))"
      by simp
    with False Cons.IH [of "Suc i"] show ?thesis by simp
  qed
qed

lemma step_loop_inv:
  assumes "step_loop target lerpT ds used = (used', trace)"
      and "used \<subseteq> {..<length target}"
  shows "used' \<subseteq> {..<length target}
       \<and> card used' = card used + length (pushed_items trace)
       \<and> length trace = length ds
       \<and> distinct (List.map_filter id (map (map_option fst) trace))
       \<and> set (List.map_filter id (map (map_option fst) trace)) \<inter> used = {}"
  using assms
proof (induction ds arbitrary: used used' trace)
  case Nil
  then show ?case by (simp add: pushed_items_def List.map_filter_simps)
next
  case (Cons d ds)
  obtain m v where bm:
    "bestMatch (\<lambda>c. iou (bbox d) (bbox c)) used target 0 (None, round_double (5 / 100)) = (m, v)"
    by (cases "bestMatch (\<lambda>c. iou (bbox d) (bbox c)) used target 0 (None, round_double (5 / 100))")
  have fin: "finite used" using Cons.prems(2) by (rule finite_subset) simp
  show ?case
  proof (cases m)
    case None
    obtain u r where rec: "step_loop target lerpT ds used = (u, r)"
      by (cases "step_loop target lerpT ds used")
    with None bm Cons.prems(1) have eq: "used' = u" "trace = None # r" by simp_all
    from Cons.IH [OF rec Cons.prems(2)] show ?thesis
      unfolding eq by (simp add: pushed_items_def List.map_filter_simps)
  next
    case (Some k)
    with bm bestMatch_start [of "\<lambda>c. iou (bbox d) (bbox c)" used target "round_double (5 / 100)" k v]
    have k: "k < length target" "k \<notin> used" by simp_all
    obtain u r where rec: "step_loop target lerpT ds (insert k used) = (u, r)"
      by (cases "step_loop target lerpT ds (insert k used)")
    with Some bm Cons.prems(1) have "used' = u \<and> (\<exists>it. trace = Some (k, it) # r)"
      by (auto simp add: Let_def)
    then obtain it where eq: "used' = u" "trace = Some (k, it) # r" by blast
    from k Cons.prems(2) have sub: "insert k used \<subseteq> {..<length target}" by simp
    from k fin have "card (insert k used) = Suc (card used)" by simp
    with Cons.IH [OF rec sub] k(2) show ?thesis
      unfolding eq by (auto simp add: pushed_items_def List.map_filter_simps)
  qed
qed

lemma step_length:
  "length (stepDisplayedTowardTarget displayed target lerpT) = length target"
proof -
  obtain u r where rec: "step_loop target lerpT displayed {} = (u, r)"
    by (cases "step_loop target lerpT displayed {}")
  from step_loop_inv [OF rec] have u: "u \<subseteq> {..<length target}"
    and c: "card u = length (pushed_items r)" by simp_all
  have "{0..<0 + length target} - u = {..<length target} - u" by auto
  then have "length (appendUnused u target 0) = card ({..<length target} - u)"
    by (simp add: appendUnused_length)
  also have "\<dots> = length target - card u"
    using u by (simp add: card_Diff_subset finite_subset)
  finally have "length (appendUnused u target 0) = length target - card u" .
  moreover have "card u \<le> length target"
    using u card_mono [of "{..<length target}" u] by simp
  ultimately show ?thesis
    using rec c by (simp add: stepDisplayedTowardTarget_def)
qed

lemmas label_defs = isMoreSpecificThan_def isGenericLabel_def trim_def toLowerCase_def
  toLowerChar_def upperCase_def lowerCase_def isWhiteSpace_def GENERIC_LABELS_def

lemma isMoreSpecificThan_milk: "\<not> isMoreSpecificThan ''milk'' ''milk''"
  by (simp add: label_defs)

lemma thresholds_ordered: "js_lt MATCH_IOU_THRESH STABILITY_IOU"
  unfolding MATCH_IOU_THRESH_eq STABILITY_IOU_eq by simp

lemma js_lt_le_trans: "js_lt a b \<Longrightarrow> js_le b c \<Longrightarrow> js_lt a c"
  by (cases a; cases b; cases c; simp)

lemma above_stability: "js_ge v STABILITY_IOU \<Longrightarrow> js_gt v MATCH_IOU_THRESH"
  using thresholds_ordered by (rule js_lt_le_trans)

text \<open>
  Claim C5. In \<^verbatim>\<open>mergeWithPrevious\<close>, a target item \<open>j\<close> matched to the displayed item \<open>i\<close>
  (their overlap is then above the match threshold) is pushed with exactly the displayed
  item's box when the overlap of the pair is at least 0.82. Otherwise each of the four
  fields \<open>x\<close>, \<open>y\<close>, \<open>width\<close> and \<open>height\<close> of the pushed box is \<open>p + (n - p) * lerpT\<close>, computed
  in doubles, where \<open>p\<close> is the field of the displayed box and \<open>n\<close> the field of the new one.
  For one displayed and one target item labelled milk whose boxes overlap by at least 0.82,
  the result is the displayed box with the label milk. The threshold is the double nearest
  to 0.82.
\<close>

theorem mergeWithPrevious_position:
  "length (merge_matches displayed target lerpT) = length target
   \<and> (\<forall>j i. j < length target \<and> merge_matches displayed target lerpT ! j = Some i \<longrightarrow>
         i < length displayed
         \<and> js_gt (iou (bbox (displayed ! i)) (bbox (target ! j))) MATCH_IOU_THRESH
         \<and> bbox (mergeWithPrevious displayed target lerpT ! j)
             = (if js_ge (iou (bbox (displayed ! i)) (bbox (target ! j))) STABILITY_IOU
                then bbox (displayed ! i)
                else \<lparr> bbox_x =
                         js_plus (bbox_x (bbox (displayed ! i)))
                           (js_times (js_minus (bbox_x (bbox (target ! j)))
                                               (bbox_x (bbox (displayed ! i)))) lerpT),
                       bbox_y =
                         js_plus (bbox_y (bbox (displayed ! i)))
                           (js_times (js_minus (bbox_y (bbox (target ! j)))
                                               (bbox_y (bbox (displayed ! i)))) lerpT),
                       bbox_width =
                         js_plus (bbox_width (bbox (displayed ! i)))
                           (js_times (js_minus (bbox_width (bbox (target ! j)))
                                               (bbox_width (bbox (displayed ! i)))) lerpT),
                       bbox_height =
                         js_plus (bbox_height (bbox (displayed ! i)))
                           (js_times (js_minus (bbox_height (bbox (target ! j)))
                                               (bbox_height (bbox (displayed ! i)))) lerpT) \<rparr>))
   \<and> (js_ge (iou B B') STABILITY_IOU \<longrightarrow>
         mergeWithPrevious [\<lparr>label = ''milk'', bbox = B\<rparr>] [\<lparr>label = ''milk'', bbox = B'\<rparr>] lerpT
           = [\<lparr>label = ''milk'', bbox = B\<rparr>])
   \<and> STABILITY_IOU = round_double (82 / 100)"
proof (intro conjI allI impI)
  show len: "length (merge_matches displayed target lerpT) = length target"
    by (simp add: merge_matches_def merge_loop_length)
  fix j i
  assume a: "j < length target \<and> merge_matches displayed target lerpT ! j = Some i"
  then have j: "j < length target"
    and m: "map fst (merge_loop displayed lerpT target {}) ! j = Some i"
    by (simp_all add: merge_matches_def)
  from merge_loop_threshold [OF j m]
  show "i < length displayed"
    and "js_gt (iou (bbox (displayed ! i)) (bbox (target ! j))) MATCH_IOU_THRESH" by simp_all
  have "mergeWithPrevious displayed target lerpT ! j
          = merge_item displayed lerpT (Some i) (target ! j)"
    unfolding mergeWithPrevious_def merge_loop_items [of displayed lerpT target "{}"]
    using j m by (simp add: merge_loop_length)
  then show "bbox (mergeWithPrevious displayed target lerpT ! j)
             = (if js_ge (iou (bbox (displayed ! i)) (bbox (target ! j))) STABILITY_IOU
                then bbox (displayed ! i)
                else \<lparr> bbox_x =
                         js_plus (bbox_x (bbox (displayed ! i)))
                           (js_times (js_minus (bbox_x (bbox (target ! j)))
                                               (bbox_x (bbox (displayed ! i)))) lerpT),
                       bbox_y =
                         js_plus (bbox_y (bbox (displayed ! i)))
                           (js_times (js_minus (bbox_y (bbox (target ! j)))
                                               (bbox_y (bbox (displayed ! i)))) lerpT),
                       bbox_width =
                         js_plus (bbox_width (bbox (displayed ! i)))
                           (js_times (js_minus (bbox_width (bbox (target ! j)))
                                               (bbox_width (bbox (displayed ! i)))) lerpT),
                       bbox_height =
                         js_plus (bbox_height (bbox (displayed ! i)))
                           (js_times (js_minus (bbox_height (bbox (target ! j)))
                                               (bbox_height (bbox (displayed ! i)))) lerpT) \<rparr>)"
    by (simp add: merge_item_def lerpBbox_def)
next
  assume s: "js_ge (iou B B') STABILITY_IOU"
  from above_stability [OF s] s
  show "mergeWithPrevious [\<lparr>label = ''milk'', bbox = B\<rparr>] [\<lparr>label = ''milk'', bbox = B'\<rparr>] lerpT
           = [\<lparr>label = ''milk'', bbox = B\<rparr>]"
    by (simp add: mergeWithPrevious_def Let_def isMoreSpecificThan_milk)
next
  show "STABILITY_IOU = round_double (82 / 100)" by (rule STABILITY_IOU_def)
qed

lemma exact_here: "of_int \<lfloor>x * 2 ^ 8\<rfloor> = x * 2 ^ 8 \<Longrightarrow> \<bar>x\<bar> * 2 ^ 8 \<le> 2 ^ 53 \<Longrightarrow> round_double x = Fin x"
  by (rule round_double_exact, rule is_double_dyadic [where n = 8]) simp_all

lemma iou_examples:
  "iou \<lparr>bbox_x = Fin 0, bbox_y = Fin 0, bbox_width = Fin (1 / 2), bbox_height = Fin (1 / 2)\<rparr>
       \<lparr>bbox_x = Fin 0, bbox_y = Fin 0, bbox_width = Fin (1 / 2), bbox_height = Fin (15 / 32)\<rparr>
     = Fin (15 / 16)"
  "iou \<lparr>bbox_x = Fin 2, bbox_y = Fin 2, bbox_width = Fin (1 / 2), bbox_height = Fin (1 / 2)\<rparr>
       \<lparr>bbox_x = Fin 0, bbox_y = Fin 0, bbox_width = Fin (1 / 2), bbox_height = Fin (15 / 32)\<rparr>
     = Fin 0"
  "iou \<lparr>bbox_x = Fin 0, bbox_y = Fin 0, bbox_width = Fin (1 / 2), bbox_height = Fin (1 / 2)\<rparr>
       \<lparr>bbox_x = Fin (17 / 8), bbox_y = Fin (17 / 8), bbox_width = Fin (3 / 8),
        bbox_height = Fin (3 / 8)\<rparr>
     = Fin 0"
  "iou \<lparr>bbox_x = Fin 2, bbox_y = Fin 2, bbox_width = Fin (1 / 2), bbox_height = Fin (1 / 2)\<rparr>
       \<lparr>bbox_x = Fin (17 / 8), bbox_y = Fin (17 / 8), bbox_width = Fin (3 / 8),
        bbox_height = Fin (3 / 8)\<rparr>
     = Fin (9 / 16)"
  by (simp_all add: iou_def Let_def js_minus_def exact_here)

lemma iou_same_box:
  "iou \<lparr>bbox_x = Fin 0, bbox_y = Fin 0, bbox_width = Fin (1 / 2), bbox_height = Fin (1 / 2)\<rparr>
       \<lparr>bbox_x = Fin 0, bbox_y = Fin 0, bbox_width = Fin (1 / 2), bbox_height = Fin (1 / 2)\<rparr>
     = Fin 1"
  by (simp add: iou_def Let_def js_minus_def exact_here)

theorem mergeWithPrevious_position_witness:
  "merge_matches
      [\<lparr>label = ''milk'', bbox = \<lparr>bbox_x = Fin 0, bbox_y = Fin 0, bbox_width = Fin (1 / 2),
                                 bbox_height = Fin (1 / 2)\<rparr>\<rparr>,
       \<lparr>label = ''juice'', bbox = \<lparr>bbox_x = Fin 2, bbox_y = Fin 2, bbox_width = Fin (1 / 2),
                                  bbox_height = Fin (1 / 2)\<rparr>\<rparr>]
      [\<lparr>label = ''milk'', bbox = \<lparr>bbox_x = Fin 0, bbox_y = Fin 0, bbox_width = Fin (1 / 2),
                                 bbox_height = Fin (15 / 32)\<rparr>\<rparr>,
       \<lparr>label = ''juice'', bbox = \<lparr>bbox_x = Fin (17 / 8), bbox_y = Fin (17 / 8),
                                  bbox_width = Fin (3 / 8), bbox_height = Fin (3 / 8)\<rparr>\<rparr>]
      (Fin (1 / 2)) = [Some 0, Some 1]
   \<and> js_ge (Fin (15 / 16)) STABILITY_IOU
   \<and> \<not> js_ge (Fin (9 / 16)) STABILITY_IOU
   \<and> bbox (mergeWithPrevious
      [\<lparr>label = ''milk'', bbox = \<lparr>bbox_x = Fin 0, bbox_y = Fin 0, bbox_width = Fin (1 / 2),
                                 bbox_height = Fin (1 / 2)\<rparr>\<rparr>,
       \<lparr>label = ''juice'', bbox = \<lparr>bbox_x = Fin 2, bbox_y = Fin 2, bbox_width = Fin (1 / 2),
                                  bbox_height = Fin (1 / 2)\<rparr>\<rparr>]
      [\<lparr>label = ''milk'', bbox = \<lparr>bbox_x = Fin 0, bbox_y = Fin 0, bbox_width = Fin (1 / 2),
                                 bbox_height = Fin (15 / 32)\<rparr>\<rparr>,
       \<lparr>label = ''juice'', bbox = \<lparr>bbox_x = Fin (17 / 8), bbox_y = Fin (17 / 8),
                                  bbox_width = Fin (3 / 8), bbox_height = Fin (3 / 8)\<rparr>\<rparr>]
      (Fin (1 / 2)) ! 0)
       = \<lparr>bbox_x = Fin 0, bbox_y = Fin 0, bbox_width = Fin (1 / 2), bbox_height = Fin (1 / 2)\<rparr>
   \<and> bbox (mergeWithPrevious
      [\<lparr>label = ''milk'', bbox = \<lparr>bbox_x = Fin 0, bbox_y = Fin 0, bbox_width = Fin (1 / 2),
                                 bbox_height = Fin (1 / 2)\<rparr>\<rparr>,
       \<lparr>label = ''juice'', bbox = \<lparr>bbox_x = Fin 2, bbox_y = Fin 2, bbox_width = Fin (1 / 2),
                                  bbox_height = Fin (1 / 2)\<rparr>\<rparr>]
      [\<lparr>label = ''milk'', bbox = \<lparr>bbox_x = Fin 0, bbox_y = Fin 0, bbox_width = Fin (1 / 2),
                                 bbox_height = Fin (15 / 32)\<rparr>\<rparr>,
       \<lparr>label = ''juice'', bbox = \<lparr>bbox_x = Fin (17 / 8), bbox_y = Fin (17 / 8),
                                  bbox_width = Fin (3 / 8), bbox_height = Fin (3 / 8)\<rparr>\<rparr>]
      (Fin (1 / 2)) ! 1)
       = \<lparr>bbox_x = Fin (33 / 16), bbox_y = Fin (33 / 16), bbox_width = Fin (7 / 16),
          bbox_height = Fin (7 / 16)\<rparr>
   \<and> mergeWithPrevious
      [\<lparr>label = ''milk'', bbox = \<lparr>bbox_x = Fin 0, bbox_y = Fin 0, bbox_width = Fin (1 / 2),
                                 bbox_height = Fin (1 / 2)\<rparr>\<rparr>]
      [\<lparr>label = ''milk'', bbox = \<lparr>bbox_x = Fin 0, bbox_y = Fin 0, bbox_width = Fin (1 / 2),
                                 bbox_height = Fin (15 / 32)\<rparr>\<rparr>]
      (Fin (1 / 2))
       = [\<lparr>label = ''milk'', bbox = \<lparr>bbox_x = Fin 0, bbox_y = Fin 0, bbox_width = Fin (1 / 2),
                                  bbox_height = Fin (1 / 2)\<rparr>\<rparr>]"
proof -
  let ?B0 = "\<lparr>bbox_x = Fin 0, bbox_y = Fin 0, bbox_width = Fin (1 / 2), bbox_height = Fin (1 / 2)\<rparr>"
  let ?B1 = "\<lparr>bbox_x = Fin 2, bbox_y = Fin 2, bbox_width = Fin (1 / 2), bbox_height = Fin (1 / 2)\<rparr>"
  let ?N0 = "\<lparr>bbox_x = Fin 0, bbox_y = Fin 0, bbox_width = Fin (1 / 2), bbox_height = Fin (15 / 32)\<rparr>"
  let ?N1 = "\<lparr>bbox_x = Fin (17 / 8), bbox_y = Fin (17 / 8), bbox_width = Fin (3 / 8),
              bbox_height = Fin (3 / 8)\<rparr>"
  let ?ds = "[\<lparr>label = ''milk'', bbox = ?B0\<rparr>, \<lparr>label = ''juice'', bbox = ?B1\<rparr>]"
  let ?ts = "[\<lparr>label = ''milk'', bbox = ?N0\<rparr>, \<lparr>label = ''juice'', bbox = ?N1\<rparr>]"
  have hi: "js_ge (Fin (15 / 16)) STABILITY_IOU" and lo: "\<not> js_ge (Fin (9 / 16)) STABILITY_IOU"
    unfolding STABILITY_IOU_eq by simp_all
  have mm: "merge_matches ?ds ?ts (Fin (1 / 2)) = [Some 0, Some 1]"
    using hi lo
    by (simp add: merge_matches_def Let_def iou_examples MATCH_IOU_THRESH_eq)
  note T = mergeWithPrevious_position [of ?ds ?ts "Fin (1 / 2)" ?B0 ?N0]
  have p0: "0 < length ?ts \<and> merge_matches ?ds ?ts (Fin (1 / 2)) ! 0 = Some 0"
    unfolding mm by simp
  have p1: "1 < length ?ts \<and> merge_matches ?ds ?ts (Fin (1 / 2)) ! 1 = Some 1"
    unfolding mm by simp
  from T [THEN conjunct2, THEN conjunct1, rule_format, OF p0] hi
  have r0: "bbox (mergeWithPrevious ?ds ?ts (Fin (1 / 2)) ! 0) = ?B0"
    by (simp add: iou_examples)
  from T [THEN conjunct2, THEN conjunct1, rule_format, OF p1] lo
  have r1: "bbox (mergeWithPrevious ?ds ?ts (Fin (1 / 2)) ! 1)
      = \<lparr>bbox_x = Fin (33 / 16), bbox_y = Fin (33 / 16), bbox_width = Fin (7 / 16),
         bbox_height = Fin (7 / 16)\<rparr>"
    by (simp add: iou_examples js_minus_def exact_here)
  from T [THEN conjunct2, THEN conjunct2, THEN conjunct1] hi
  have r2: "mergeWithPrevious [\<lparr>label = ''milk'', bbox = ?B0\<rparr>] [\<lparr>label = ''milk'', bbox = ?N0\<rparr>]
              (Fin (1 / 2)) = [\<lparr>label = ''milk'', bbox = ?B0\<rparr>]"
    by (simp add: iou_examples)
  from mm hi lo r0 r1 r2 show ?thesis by (simp only: simp_thms)
qed

text \<open>
  Claim C10. Both operations return as many items as the target list has; in
  \<^verbatim>\<open>mergeWithPrevious\<close> no displayed index is matched by two target items, and in
  \<^verbatim>\<open>stepDisplayedTowardTarget\<close> every displayed item has at most one match and no target
  index is matched by two displayed items; an empty target list gives an empty result.
\<close>

theorem tracker_output_shape:
  "length (mergeWithPrevious displayed target lerpT) = length target
   \<and> length (stepDisplayedTowardTarget displayed target lerpT) = length target
   \<and> distinct (matched (merge_matches displayed target lerpT))
   \<and> length (step_matches displayed target lerpT) = length displayed
   \<and> distinct (matched (step_matches displayed target lerpT))
   \<and> mergeWithPrevious displayed [] lerpT = []
   \<and> stepDisplayedTowardTarget displayed [] lerpT = []"
proof (intro conjI)
  show "length (mergeWithPrevious displayed target lerpT) = length target"
    by (simp add: mergeWithPrevious_def merge_loop_length)
  show "length (stepDisplayedTowardTarget displayed target lerpT) = length target"
    by (rule step_length)
  show "distinct (matched (merge_matches displayed target lerpT))"
    unfolding matched_def merge_matches_def using merge_loop_matches by blast
  obtain u r where rec: "step_loop target lerpT displayed {} = (u, r)"
    by (cases "step_loop target lerpT displayed {}")
  from step_loop_inv [OF rec]
  show "length (step_matches displayed target lerpT) = length displayed"
    and "distinct (matched (step_matches displayed target lerpT))"
    by (simp_all add: step_matches_def matched_def rec)
  show "mergeWithPrevious displayed [] lerpT = []"
    by (simp add: mergeWithPrevious_def)
  have "length (stepDisplayedTowardTarget displayed [] lerpT) = 0"
    by (simp add: step_length)
  then show "stepDisplayedTowardTarget displayed [] lerpT = []" by simp
qed

text \<open>
  The rule for labels. When the new label has no white space at its ends, the new label
  replaces the previous one exactly when the previous label is generic, the new one is not,
  and the new one is at least as long or has more than one word.
\<close>

lemma splitWs_pieces_nonempty:
  "s = [] \<or> \<not> isWhiteSpace (last s) \<Longrightarrow>
   cur \<noteq> [] \<or> (s \<noteq> [] \<and> \<not> isWhiteSpace (hd s)) \<Longrightarrow>
   [] \<notin> set (splitWs cur s)"
proof (induction cur s rule: splitWs.induct)
  case (1 cur)
  then show ?case by simp
next
  case (2 cur c cs)
  show ?case
  proof (cases "isWhiteSpace c")
    case True
    with "2.prems" have cur: "cur \<noteq> []" and cs: "cs \<noteq> []" "\<not> isWhiteSpace (last cs)"
      by (auto split: if_splits)
    let ?r = "dropWhile isWhiteSpace cs"
    from cs have "last cs \<in> set cs" by simp
    with cs(2) have ne: "?r \<noteq> []" by (auto simp: dropWhile_eq_Nil_conv)
    then have hd: "\<not> isWhiteSpace (hd ?r)" by (rule hd_dropWhile)
    obtain pre where "cs = pre @ ?r"
      using takeWhile_dropWhile_id [of isWhiteSpace cs, symmetric] by blast
    with ne have "last ?r = last cs" by (metis last_appendR)
    with cs(2) have last: "\<not> isWhiteSpace (last ?r)" by simp
    from "2.IH"(1) [OF True] ne hd last have "[] \<notin> set (splitWs [] ?r)" by blast
    with True cur show ?thesis by simp
  next
    case False
    with "2.prems" have "cs = [] \<or> \<not> isWhiteSpace (last cs)" by (auto split: if_splits)
    with "2.IH"(2) [OF False] have "[] \<notin> set (splitWs (c # cur) cs)" by blast
    with False show ?thesis by simp
  qed
qed

lemma trim_ends:
  assumes "trim s \<noteq> []"
  shows "\<not> isWhiteSpace (hd (trim s))" and "\<not> isWhiteSpace (last (trim s))"
proof -
  let ?a = "dropWhile isWhiteSpace s"
  let ?b = "dropWhile isWhiteSpace (rev ?a)"
  from assms have b: "?b \<noteq> []" by (simp add: trim_def)
  then have a: "?a \<noteq> []" by (cases "?a") simp_all
  from b have "\<not> isWhiteSpace (hd ?b)" by (rule hd_dropWhile)
  then show "\<not> isWhiteSpace (last (trim s))"
    using b by (simp add: trim_def last_rev)
  obtain pre where "rev ?a = pre @ ?b"
    using takeWhile_dropWhile_id [of isWhiteSpace "rev ?a", symmetric] by blast
  with b have "last ?b = last (rev ?a)" by (metis last_appendR)
  also have "\<dots> = hd ?a" using a by (simp add: last_rev)
  finally have "hd (trim s) = hd ?a" using b by (simp add: trim_def hd_rev)
  moreover from a have "\<not> isWhiteSpace (hd ?a)" by (rule hd_dropWhile)
  ultimately show "\<not> isWhiteSpace (hd (trim s))" by simp
qed

lemma words_of_unpadded:
  assumes "trim s = s"
  shows "(1 < length (split_whitespace s)) = (1 < length (words_of s))"
proof (cases "s = []")
  case True
  then show ?thesis by (simp add: split_whitespace_def words_of_def)
next
  case False
  with assms trim_ends [of s] have "\<not> isWhiteSpace (hd s)" "\<not> isWhiteSpace (last s)"
    by simp_all
  with False have "[] \<notin> set (splitWs [] s)"
    by (intro splitWs_pieces_nonempty) simp_all
  then have "filter (\<lambda>w. w \<noteq> []) (splitWs [] s) = splitWs [] s"
    by (auto simp: filter_id_conv)
  then show ?thesis by (simp add: split_whitespace_def words_of_def)
qed

lemma label_rule_without_padding:
  assumes "trim newLabel = newLabel"
  shows "isMoreSpecificThan prevLabel newLabel
     = (isGenericLabel prevLabel \<and> \<not> isGenericLabel newLabel
        \<and> (length newLabel \<ge> length prevLabel \<or> 1 < length (words_of newLabel)))"
  using words_of_unpadded [OF assms] by (auto simp: isMoreSpecificThan_def)

lemma label_examples:
  "isMoreSpecificThan ''box'' ''canned tuna''"
  "\<not> isMoreSpecificThan ''canned tuna'' ''box''"
  by (simp_all add: label_defs split_whitespace_def)

text \<open>
  Outside ASCII: the no-break space is white space for \<^verbatim>\<open>trim\<close> and for \<^verbatim>\<open>\s\<close>, and the
  accented capitals are lowered, the multiplication sign and the sharp s are not.
\<close>

lemma latin1_labels:
  "trim (CHR 0xA0 # ''box'' @ [CHR 0xA0]) = ''box''"
  "isGenericLabel (CHR 0xA0 # ''Boxes'')"
  "split_whitespace (''a'' @ [CHR 0xA0] @ ''b'') = [''a'', ''b'']"
  "toLowerCase [CHR 0xC9, CHR 0xD7, CHR 0xDF] = [CHR 0xE9, CHR 0xD7, CHR 0xDF]"
  by (simp_all add: label_defs split_whitespace_def)

text \<open>
  Claim C6, on a matched pair whose previous label is \<open>containers\<close> and whose new label
  is \<open>tuna\<close> followed by one space. The previous label is generic, the new one is not,
  the new one is shorter and has a single word, and yet the new label replaces the previous
  one: \<^verbatim>\<open>split(/\s+/)\<close> counts the empty piece after the trailing space as a second
  word, whereas \<^verbatim>\<open>isGenericLabel\<close> trims a label before looking at it.
\<close>

theorem padded_label_counts_as_two_words:
  "isGenericLabel ''containers''
   \<and> \<not> isGenericLabel ''tuna ''
   \<and> length ''tuna '' < length ''containers''
   \<and> words_of ''tuna '' = [''tuna'']
   \<and> split_whitespace ''tuna '' = [''tuna'', '''']
   \<and> isMoreSpecificThan ''containers'' ''tuna ''
   \<and> map label (mergeWithPrevious
        [\<lparr>label = ''containers'', bbox = \<lparr>bbox_x = Fin 0, bbox_y = Fin 0, bbox_width = Fin (1 / 2), bbox_height = Fin (1 / 2)\<rparr>\<rparr>]
        [\<lparr>label = ''tuna '', bbox = \<lparr>bbox_x = Fin 0, bbox_y = Fin 0, bbox_width = Fin (1 / 2), bbox_height = Fin (1 / 2)\<rparr>\<rparr>]
        (round_double (35 / 100))) = [''tuna '']
   \<and> map label (stepDisplayedTowardTarget
        [\<lparr>label = ''containers'', bbox = \<lparr>bbox_x = Fin 0, bbox_y = Fin 0, bbox_width = Fin (1 / 2), bbox_height = Fin (1 / 2)\<rparr>\<rparr>]
        [\<lparr>label = ''tuna '', bbox = \<lparr>bbox_x = Fin 0, bbox_y = Fin 0, bbox_width = Fin (1 / 2), bbox_height = Fin (1 / 2)\<rparr>\<rparr>]
        LERP_SPEED) = [''tuna '']"
proof -
  have g1: "isGenericLabel ''containers''"
    by (simp add: label_defs)
  have g2: "\<not> isGenericLabel ''tuna ''"
    by (simp add: label_defs)
  have sp: "split_whitespace ''tuna '' = [''tuna'', '''']"
    by (simp add: split_whitespace_def isWhiteSpace_def)
  have ms: "isMoreSpecificThan ''containers'' ''tuna ''"
    by (simp add: isMoreSpecificThan_def g1 g2 sp)
  have mg: "map label (mergeWithPrevious
        [\<lparr>label = ''containers'', bbox = \<lparr>bbox_x = Fin 0, bbox_y = Fin 0, bbox_width = Fin (1 / 2), bbox_height = Fin (1 / 2)\<rparr>\<rparr>]
        [\<lparr>label = ''tuna '', bbox = \<lparr>bbox_x = Fin 0, bbox_y = Fin 0, bbox_width = Fin (1 / 2), bbox_height = Fin (1 / 2)\<rparr>\<rparr>]
        (round_double (35 / 100))) = [''tuna '']"
    by (simp add: mergeWithPrevious_def iou_same_box ms MATCH_IOU_THRESH_eq Let_def)
  have st: "map label (stepDisplayedTowardTarget
        [\<lparr>label = ''containers'', bbox = \<lparr>bbox_x = Fin 0, bbox_y = Fin 0, bbox_width = Fin (1 / 2), bbox_height = Fin (1 / 2)\<rparr>\<rparr>]
        [\<lparr>label = ''tuna '', bbox = \<lparr>bbox_x = Fin 0, bbox_y = Fin 0, bbox_width = Fin (1 / 2), bbox_height = Fin (1 / 2)\<rparr>\<rparr>]
        LERP_SPEED) = [''tuna '']"
    by (simp add: stepDisplayedTowardTarget_def pushed_items_def iou_same_box ms Let_def
        step_threshold_eq List.map_filter_simps)
  show ?thesis using g1 g2 sp ms mg st by (simp add: words_of_def)
qed

section \<open>Capture: chunks and quantization\<close>

lemma clampSample_Fin: "clampSample (Fin v) = Fin (max (- 1) (min 1 v))"
  by (simp add: clampSample_def)

lemma clampSample_special:
  "clampSample PosInf = Fin 1" "clampSample NegInf = Fin (- 1)" "clampSample NaN = NaN"
  by (simp_all add: clampSample_def)

lemma double_32767: "is_double 32767" "is_double (- 32767)"
  using is_double_int [of 32767] is_double_int [of "- 32767"] by simp_all

text \<open>The product of a number of \<open>[-1, 1]\<close> with 32767 stays in \<open>[-32767, 32767]\<close> when rounded.\<close>

lemma scaled_bounds:
  assumes "- 1 \<le> r" "r \<le> 1"
  shows "\<exists>p. round_double (r * 32767) = Fin p \<and> - 32767 \<le> p \<and> p \<le> 32767"
proof -
  from assms have "r * 32767 \<le> 32767" "- 32767 \<le> r * 32767" by simp_all
  then have "js_le (round_double (r * 32767)) (Fin 32767)"
    and "js_le (Fin (- 32767)) (round_double (r * 32767))"
    using double_32767 by (simp_all only: round_double_le round_double_ge)
  then show ?thesis by (cases "round_double (r * 32767)") simp_all
qed

lemma floor_bounds:
  fixes p :: real
  assumes "- 32767 \<le> p" "p \<le> 32767"
  shows "- 32767 \<le> \<lfloor>p\<rfloor>" "\<lfloor>p\<rfloor> \<le> 32767"
  using assms by (simp_all add: le_floor_iff floor_le_iff)

lemma quantize_Fin:
  assumes "js_times (Fin r) (Fin 32767) = Fin p" "- 32767 \<le> p" "p \<le> 32767"
  shows "quantize (Fin r) = Fin (of_int \<lfloor>p\<rfloor>)"
proof -
  define k where "k = \<lfloor>p\<rfloor>"
  from floor_bounds [OF assms(2,3)]
  have "- 32768 \<le> (of_int k :: real)" "(of_int k :: real) \<le> 32767"
    unfolding k_def by linarith+
  then have "Math_max (Fin (- 32768)) (Math_min (Fin 32767) (Fin (of_int k))) = Fin (of_int k)"
    by (simp only: Math_min.simps Math_max.simps min_absorb2 max_absorb2)
  then show ?thesis
    unfolding quantize_def Let_def assms(1) Math_floor.simps k_def .
qed

lemma quantize_clamps:
  assumes "js_times (Fin s) (Fin 32767) = Fin p"
  shows "quantize (Fin s) = Fin (max (- 32768) (min 32767 (of_int \<lfloor>p\<rfloor>)))"
  unfolding quantize_def Let_def assms by simp

lemma toInt16_of_int: "toInt16 (Fin (of_int k)) = word_of_int k"
  by simp

lemma sint_in_range:
  assumes "- 32768 \<le> k" "k \<le> 32767"
  shows "sint (word_of_int k :: 16 word) = k"
  using assms by (simp add: signed_of_int signed_take_bit_int_eq_self)

lemma sample_no_wrap:
  "\<exists>p. round_double (max (- 1) (min 1 v) * 32767) = Fin p \<and> - 32767 \<le> p \<and> p \<le> 32767
       \<and> quantize (clampSample (Fin v)) = Fin (of_int \<lfloor>p\<rfloor>)
       \<and> - 32767 \<le> \<lfloor>p\<rfloor> \<and> \<lfloor>p\<rfloor> \<le> 32767
       \<and> sint (toInt16 (quantize (clampSample (Fin v)))) = \<lfloor>p\<rfloor>"
proof -
  let ?r = "max (- 1) (min 1 v)"
  have r: "- 1 \<le> ?r" "?r \<le> 1" by simp_all
  from scaled_bounds [OF r] obtain p where
    p: "round_double (?r * 32767) = Fin p" "- 32767 \<le> p" "p \<le> 32767" by blast
  from p(1) have t: "js_times (Fin ?r) (Fin 32767) = Fin p" by simp
  have q: "quantize (clampSample (Fin v)) = Fin (of_int \<lfloor>p\<rfloor>)"
    unfolding clampSample_Fin using t p(2,3) by (rule quantize_Fin)
  note b = floor_bounds [OF p(2,3)]
  from b have "- 32768 \<le> \<lfloor>p\<rfloor>" by linarith
  then have "sint (word_of_int \<lfloor>p\<rfloor> :: 16 word) = \<lfloor>p\<rfloor>" using b(2) by (rule sint_in_range)
  then have "sint (toInt16 (quantize (clampSample (Fin v)))) = \<lfloor>p\<rfloor>"
    unfolding q toInt16_of_int .
  with p q b show ?thesis by blast
qed

lemma round_double_32767: "round_double 32767 = Fin 32767" "round_double (- 32767) = Fin (- 32767)"
  using double_32767 by (simp_all add: is_double_def)

lemma quantize_ends:
  "quantize (Fin 1) = Fin 32767" "quantize (Fin (- 1)) = Fin (- 32767)" "quantize NaN = NaN"
  by (simp_all add: quantize_def round_double_32767)

lemma stored_ends:
  "toInt16 (Fin 32767) = 32767" "toInt16 (Fin (- 32767)) = - 32767" "toInt16 NaN = 0"
  "sint (32767 :: 16 word) = 32767" "sint (- 32767 :: 16 word) = - 32767"
  by simp_all

text \<open>
  The samples of a \<^verbatim>\<open>Float32Array\<close> have a mantissa of 24 bits, so their product with 32767
  is a double and the multiplication does not round.
\<close>

lemma float32_product_exact:
  assumes "\<bar>m\<bar> < 2 ^ 24" "- 1074 \<le> k" "\<bar>of_int m * 2 powi k :: real\<bar> \<le> 1"
  shows "js_times (Fin (of_int m * 2 powi k)) (Fin 32767) = Fin (of_int m * 2 powi k * 32767)"
proof -
  have eq: "of_int m * 2 powi k * 32767 = (of_int (m * 32767) * 2 powi k :: real)" by simp
  from assms(1) have "\<bar>m * 32767\<bar> \<le> 2 ^ 53" by (simp add: abs_mult)
  moreover have "\<bar>of_int (m * 32767) * 2 powi k :: real\<bar> < huge"
  proof -
    have "\<bar>of_int (m * 32767) * 2 powi k :: real\<bar> = \<bar>of_int m * 2 powi k :: real\<bar> * 32767"
      by (simp add: abs_mult)
    also have "\<dots> \<le> 2 powi 15" using assms(3) by simp
    also have "\<dots> < huge" unfolding huge_def by (simp only: powi2_less_iff)
    finally show ?thesis .
  qed
  ultimately have "round_double (of_int (m * 32767) * 2 powi k) = Fin (of_int (m * 32767) * 2 powi k)"
    using assms(2) by (intro round_double_rep)
  then show ?thesis unfolding js_times.simps eq .
qed

lemma SEND_FRAMES_eq: "SEND_FRAMES = 1600"
  by (simp add: SEND_FRAMES_def SEND_SAMPLE_RATE_def CHUNK_MS_def)

lemma emitChunks_result:
  "emitChunks buffer = (out, rest) \<Longrightarrow>
     (\<forall>ch \<in> set out. length ch = SEND_FRAMES)
     \<and> length rest < SEND_FRAMES
     \<and> concat out = encodeChunk (take (SEND_FRAMES * length out) buffer)
     \<and> rest = drop (SEND_FRAMES * length out) buffer"
proof (induction buffer arbitrary: out rest rule: emitChunks.induct)
  case (1 buffer)
  show ?case
  proof (cases "length buffer \<ge> SEND_FRAMES")
    case False
    with "1.prems" have "out = []" "rest = buffer"
      by (simp_all add: emitChunks.simps [of buffer])
    with False show ?thesis by (simp add: encodeChunk_def)
  next
    case True
    obtain o' r' where rec: "emitChunks (drop SEND_FRAMES buffer) = (o', r')"
      by (cases "emitChunks (drop SEND_FRAMES buffer)")
    with True "1.prems" have eq: "out = encodeChunk (take SEND_FRAMES buffer) # o'" "rest = r'"
      by (simp_all add: emitChunks.simps [of buffer] Let_def)
    from "1.IH" [OF True refl rec]
    have ih1: "\<forall>ch \<in> set o'. length ch = SEND_FRAMES"
      and ih2: "length r' < SEND_FRAMES"
      and ih3: "concat o' = encodeChunk (take (SEND_FRAMES * length o') (drop SEND_FRAMES buffer))"
      and ih4: "r' = drop (SEND_FRAMES * length o') (drop SEND_FRAMES buffer)"
      by blast+
    have len: "length (encodeChunk (take SEND_FRAMES buffer)) = SEND_FRAMES"
      using True by (simp add: encodeChunk_def)
    have n: "SEND_FRAMES * length out = SEND_FRAMES + SEND_FRAMES * length o'"
      unfolding eq by simp
    have c1: "\<forall>ch \<in> set out. length ch = SEND_FRAMES"
      unfolding eq using ih1 len by simp
    have c2: "length rest < SEND_FRAMES"
      unfolding eq using ih2 .
    have "take (SEND_FRAMES * length out) buffer
            = take SEND_FRAMES buffer @ take (SEND_FRAMES * length o') (drop SEND_FRAMES buffer)"
      unfolding n by (rule take_add)
    then have c3: "concat out = encodeChunk (take (SEND_FRAMES * length out) buffer)"
      using ih3 by (simp add: eq(1) encodeChunk_def)
    have c4: "rest = drop (SEND_FRAMES * length out) buffer"
      unfolding n eq(2) ih4 by (simp add: add.commute)
    from c1 c2 c3 c4 show ?thesis by blast
  qed
qed

lemma emitChunks_short: "length buffer < SEND_FRAMES \<Longrightarrow> emitChunks buffer = ([], buffer)"
  by (simp add: emitChunks.simps [of buffer])

lemma onaudioprocess_example:
  "onaudioprocess (map clampSample []) (replicate 1600 (Fin (- 2)))
     = ([replicate 1600 (- 32767)], [])"
proof -
  have q: "toInt16 (quantize (Fin (- 1))) = - 32767"
    by (simp add: quantize_ends)
  have "emitChunks (replicate 1600 (Fin (- 1)))
          = ([encodeChunk (replicate 1600 (Fin (- 1)))], [])"
    by (simp add: emitChunks.simps [of "replicate 1600 (Fin (- 1))"] SEND_FRAMES_eq
        emitChunks_short)
  then show ?thesis
    by (simp add: onaudioprocess_def clampSample_Fin encodeChunk_def q)
qed

text \<open>
  Claim C9. The buffer holds clamped samples only. Whatever samples arrive, every chunk
  emitted has exactly 1600 elements; the chunks are, in order, the quantized clamped
  samples, and what is left in the buffer is shorter than a chunk. The clamp takes a
  finite sample \<open>v\<close> to \<open>max (-1) (min 1 v)\<close>, the infinities to 1 and -1, and leaves NaN.
  For a finite sample the number stored is the integer \<open>\<lfloor>p\<rfloor>\<close>, where \<open>p\<close> is the clamped
  sample times 32767 as a double; it lies between -32767 and 32767 and the 16-bit element
  holds it unchanged. The infinities are stored as 32767 and -32767, and NaN as 0. The
  quantizer has a clamp of its own, to -32768 and 32767, which changes nothing on a
  clamped sample.
\<close>

theorem capture_chunks:
  assumes "onaudioprocess (map clampSample pending) inputData = (chunks, rest)"
  shows "SEND_FRAMES = 1600
   \<and> (\<forall>ch \<in> set chunks. length ch = 1600)
   \<and> concat chunks
       = map (\<lambda>x. toInt16 (quantize (clampSample x)))
           (take (1600 * length chunks) (pending @ inputData))
   \<and> rest = map clampSample (drop (1600 * length chunks) (pending @ inputData))
   \<and> length rest < 1600
   \<and> (\<forall>v. clampSample (Fin v) = Fin (max (- 1) (min 1 v)))
   \<and> clampSample PosInf = Fin 1 \<and> clampSample NegInf = Fin (- 1) \<and> clampSample NaN = NaN
   \<and> (\<forall>v. \<exists>p. round_double (max (- 1) (min 1 v) * 32767) = Fin p
          \<and> - 32767 \<le> p \<and> p \<le> 32767
          \<and> quantize (clampSample (Fin v)) = Fin (of_int \<lfloor>p\<rfloor>)
          \<and> - 32767 \<le> \<lfloor>p\<rfloor> \<and> \<lfloor>p\<rfloor> \<le> 32767
          \<and> sint (toInt16 (quantize (clampSample (Fin v)))) = \<lfloor>p\<rfloor>)
   \<and> sint (toInt16 (quantize (clampSample PosInf))) = 32767
   \<and> sint (toInt16 (quantize (clampSample NegInf))) = - 32767
   \<and> quantize (clampSample NaN) = NaN \<and> toInt16 (quantize (clampSample NaN)) = 0
   \<and> (\<forall>s p. js_times (Fin s) (Fin 32767) = Fin p \<longrightarrow>
          quantize (Fin s) = Fin (max (- 32768) (min 32767 (of_int \<lfloor>p\<rfloor>))))"
proof -
  from assms have "emitChunks (map clampSample (pending @ inputData)) = (chunks, rest)"
    by (simp add: onaudioprocess_def)
  from emitChunks_result [OF this]
  have r1: "\<forall>ch \<in> set chunks. length ch = 1600"
    and r2: "length rest < 1600"
    and r3: "concat chunks
               = encodeChunk (take (1600 * length chunks) (map clampSample (pending @ inputData)))"
    and r4: "rest = drop (1600 * length chunks) (map clampSample (pending @ inputData))"
    unfolding SEND_FRAMES_eq by blast+
  from r3 have r3': "concat chunks
       = map (\<lambda>x. toInt16 (quantize (clampSample x)))
           (take (1600 * length chunks) (pending @ inputData))"
    by (simp only: encodeChunk_def take_map map_map comp_def)
  from r4 have r4': "rest = map clampSample (drop (1600 * length chunks) (pending @ inputData))"
    by (simp only: drop_map)
  have e1: "sint (toInt16 (quantize (clampSample PosInf))) = 32767"
    by (simp only: clampSample_special quantize_ends stored_ends)
  have e2: "sint (toInt16 (quantize (clampSample NegInf))) = - 32767"
    by (simp only: clampSample_special quantize_ends stored_ends)
  have e3: "quantize (clampSample NaN) = NaN" "toInt16 (quantize (clampSample NaN)) = 0"
    by (simp_all only: clampSample_special quantize_ends stored_ends)
  from SEND_FRAMES_eq r1 r3' r4' r2 clampSample_Fin clampSample_special sample_no_wrap e1 e2 e3
    quantize_clamps
  show ?thesis by blast
qed

theorem capture_chunks_witness:
  "onaudioprocess (map clampSample []) (replicate 1600 (Fin (- 2)))
     = ([replicate 1600 (- 32767)], [])
   \<and> length (replicate 1600 (- 32767 :: 16 word)) = 1600
   \<and> concat [replicate 1600 (- 32767 :: 16 word)]
       = map (\<lambda>x. toInt16 (quantize (clampSample x)))
           (take (1600 * length [replicate 1600 (- 32767 :: 16 word)])
              ([] @ replicate 1600 (Fin (- 2))))
   \<and> clampSample (Fin (- 2)) = Fin (- 1)
   \<and> sint (toInt16 (quantize (clampSample (Fin (- 2))))) = - 32767
   \<and> js_times (Fin (- 2)) (Fin 32767) = Fin (- 65534)
   \<and> quantize (Fin (- 2)) = Fin (- 32768)"
proof -
  note h = onaudioprocess_example
  note T = capture_chunks [OF h]
  from T have "\<forall>ch \<in> set [replicate 1600 (- 32767 :: 16 word)]. length ch = 1600"
    and c: "concat [replicate 1600 (- 32767 :: 16 word)]
       = map (\<lambda>x. toInt16 (quantize (clampSample x)))
           (take (1600 * length [replicate 1600 (- 32767 :: 16 word)])
              ([] @ replicate 1600 (Fin (- 2))))"
    and cl: "\<forall>v. clampSample (Fin v) = Fin (max (- 1) (min 1 v))"
    and qc: "\<forall>s p. js_times (Fin s) (Fin 32767) = Fin p \<longrightarrow>
               quantize (Fin s) = Fin (max (- 32768) (min 32767 (of_int \<lfloor>p\<rfloor>)))"
    by blast+
  from cl have c2: "clampSample (Fin (- 2)) = Fin (- 1)" by simp
  have "sint (toInt16 (quantize (clampSample (Fin (- 2))))) = - 32767"
    unfolding c2 by (simp only: quantize_ends stored_ends)
  moreover have t: "js_times (Fin (- 2)) (Fin 32767) = Fin (- 65534)"
    using is_double_int [of "- 65534"] by (simp add: is_double_def)
  moreover from qc t have "quantize (Fin (- 2)) = Fin (- 32768)" by fastforce
  ultimately show ?thesis using h c c2 by simp
qed

section \<open>Playback: start times\<close>

lemma int16_of_bytes_even:
  "even (length bs) \<Longrightarrow> \<exists>ws. int16_of_bytes bs = Some ws \<and> length ws = length bs div 2"
  by (induction bs rule: int16_of_bytes.induct) auto


lemma playPcm24k_suspended:
  "playPcm24k c True t p
     = (None, p\<lparr>playbackQueue := playbackQueue p @ [c], hasPlaybackContext := True,
                 resumeCallbacks := resumeCallbacks p + 1\<rparr>)"
  by (cases "playbackQueue p") (simp_all add: playPcm24k_def drainPlayback_def Let_def)

lemma drainPlayback_head:
  assumes "playbackQueue p = c # q" "even (length c)" "c \<noteq> []"
  shows "fst (drainPlayback False t p) = None"
    and "playbackQueue (snd (drainPlayback False t p)) = q"
    and "map fst (started (snd (drainPlayback False t p)))
           = map fst (started p) @ [max (nextPlayTime p) t]"
    and "nextPlayTime (snd (drainPlayback False t p)) = max (nextPlayTime p) t + chunkDuration c"
proof -
  from int16_of_bytes_even [OF assms(2)] obtain ws
    where ws: "int16_of_bytes c = Some ws" "length ws = length c div 2" by blast
  from assms(2,3) have "length c div 2 \<noteq> 0" by (cases c) auto
  with ws have ne: "ws \<noteq> []" by auto
  from assms(1) ws ne
  show "fst (drainPlayback False t p) = None"
    and "playbackQueue (snd (drainPlayback False t p)) = q"
    and "map fst (started (snd (drainPlayback False t p)))
           = map fst (started p) @ [max (nextPlayTime p) t]"
    and "nextPlayTime (snd (drainPlayback False t p)) = max (nextPlayTime p) t + chunkDuration c"
    by (simp_all add: drainPlayback_def Let_def chunkDuration_def)
qed

text \<open>
  Chunks passed while the context is suspended are not started; they wait in the queue, and
  when the context resumes they start one directly after the other.
\<close>

lemma playback_after_resume:
  assumes "playbackQueue p = []" and "resumeCallbacks p = 0"
    and "even (length c1)" and "c1 \<noteq> []"
    and "length c2 = length c1" and "length c3 = length c1"
  shows "map fst (started (contextResumed t
            (snd (playPcm24k c3 True t3 (snd (playPcm24k c2 True t2
               (snd (playPcm24k c1 True t1 p))))))))
         = map fst (started p)
           @ [max (nextPlayTime p) t,
              max (nextPlayTime p) t + chunkDuration c1,
              max (nextPlayTime p) t + 2 * chunkDuration c1]"
proof -
  let ?s = "max (nextPlayTime p) t" and ?D = "chunkDuration c1"
  define p0 where "p0 = p\<lparr>playbackQueue := [c1, c2, c3], hasPlaybackContext := True,
                          resumeCallbacks := 0\<rparr>"
  define d where "d = (\<lambda>q. snd (drainPlayback False t q))"
  have dur: "chunkDuration c2 = ?D" "chunkDuration c3 = ?D"
    using assms(5,6) by (simp_all add: chunkDuration_def)
  have c2: "even (length c2)" "c2 \<noteq> []" and c3: "even (length c3)" "c3 \<noteq> []"
    using assms(3-6) by auto
  have fed: "snd (playPcm24k c3 True t3 (snd (playPcm24k c2 True t2
               (snd (playPcm24k c1 True t1 p)))))
             = p0\<lparr>resumeCallbacks := 3\<rparr>"
    using assms(1,2) by (simp add: playPcm24k_suspended p0_def)
  have res: "contextResumed t (p0\<lparr>resumeCallbacks := 3\<rparr>) = d (d (d p0))"
    by (simp add: contextResumed_def d_def p0_def eval_nat_numeral)
  have q0: "playbackQueue p0 = c1 # [c2, c3]" "started p0 = started p"
    "nextPlayTime p0 = nextPlayTime p"
    by (simp_all add: p0_def)
  have d: "d q = snd (drainPlayback False t q)" for q by (simp add: d_def)
  note s1 = drainPlayback_head [OF q0(1) assms(3,4), of t, folded d]
  note s2 = drainPlayback_head [OF s1(2) c2, of t, folded d]
  note s3 = drainPlayback_head [OF s2(2) c3, of t, folded d]
  have D0: "0 \<le> ?D" by (simp add: chunkDuration_def)
  have n1: "nextPlayTime (d p0) = ?s + ?D" using s1(4) q0(3) by simp
  have m1: "max (?s + ?D) t = ?s + ?D" using D0 by (intro max_absorb1) linarith
  have n2: "nextPlayTime (d (d p0)) = ?s + ?D + ?D"
    using s2(4) dur unfolding n1 m1 by simp
  have m2: "max (?s + ?D + ?D) t = ?s + ?D + ?D" using D0 by (intro max_absorb1) linarith
  have "map fst (started (d (d (d p0))))
          = map fst (started p) @ [?s, ?s + ?D, ?s + ?D + ?D]"
    using s1(3) s2(3) s3(3) unfolding q0(2,3) n1 n2 m1 m2 by simp
  then show ?thesis unfolding fed res by simp
qed



section \<open>The session: connecting, queueing, sending\<close>

lemmas client_defs = run_def connect_def ws_open_def init_def notify_def setTimeout_def
  clearTimeout_def resolveOnce_def sendJSON_def sendSetup_def flushSendQueue_def
  handleMessage_def onopen_def onclose_def onerror_def onmessage_def timedOut_def
  sendVideoFrame_def sendAudio_def sendToolResponse_def disconnect_def socket_send_def
  socket_close_def session_state_def Let_def

lemma same_connection_refl: "same_connection c c"
  by (simp add: same_connection_def)

lemma same_connection_trans:
  "same_connection a b \<Longrightarrow> same_connection b c \<Longrightarrow> same_connection a c"
  by (simp add: same_connection_def)

lemma same_notify: "same_connection c (notify n c)"
  by (simp add: same_connection_def notify_def)

lemma same_sendJSON: "same_connection c (sendJSON m c)"
  by (simp add: same_connection_def sendJSON_def socket_send_def split: option.splits)

lemma same_handlePart: "same_connection c (handlePart p c)"
  by (simp add: same_connection_def handlePart_def notify_def Let_def split: option.splits)

lemma same_fold_handlePart: "same_connection c (fold handlePart ps c)"
proof (induction ps arbitrary: c)
  case Nil
  show ?case by (simp add: same_connection_refl)
next
  case (Cons p ps)
  from same_handlePart [of c p] Cons [of "handlePart p c"] show ?case
    by (simp add: same_connection_trans)
qed

lemma same_fold_notifyToolCall: "same_connection c (fold notifyToolCall calls c)"
proof (induction calls arbitrary: c)
  case Nil
  show ?case by (simp add: same_connection_refl)
next
  case (Cons fc calls)
  have "same_connection c (notifyToolCall fc c)"
    by (simp add: notifyToolCall_def same_notify)
  with Cons [of "notifyToolCall fc c"] show ?case
    by (simp add: same_connection_trans)
qed

lemma same_handleServerContent: "same_connection c (handleServerContent sc c)"
proof -
  have parts: "same_connection c (case modelTurn_parts sc of None \<Rightarrow> c | Some ps \<Rightarrow> fold handlePart ps c)"
    by (simp add: same_connection_refl same_fold_handlePart split: option.splits)
  then show ?thesis
    unfolding handleServerContent_def Let_def
    by (auto simp add: same_connection_def notify_def split: option.splits)
qed

lemma same_handleMessage:
  "\<not> setupComplete j \<Longrightarrow> same_connection c (handleMessage j w c)"
  unfolding handleMessage_def
  by (auto simp add: same_fold_notifyToolCall same_handleServerContent same_connection_refl
      intro: same_connection_trans [OF same_notify same_notify] split: option.splits)

lemma same_quiet_step: "quiet_event e \<Longrightarrow> same_connection c (step e c)"
proof (cases e)
  case (SocketMessage w msg)
  assume "quiet_event e"
  with SocketMessage show ?thesis
    by (cases msg) (simp_all add: onmessage_def same_connection_refl same_handleMessage)
qed (simp_all add: sendVideoFrame_def sendAudio_def sendToolResponse_def same_sendJSON
      same_connection_refl)

lemma same_quiet_run: "list_all quiet_event evs \<Longrightarrow> same_connection c (run evs c)"
proof (induction evs arbitrary: c)
  case Nil
  show ?case by (simp add: run_def same_connection_refl)
next
  case (Cons e evs)
  then have "same_connection c (step e c)" "same_connection (step e c) (run evs (step e c))"
    by (simp_all add: same_quiet_step)
  then have "same_connection c (run evs (step e c))" by (rule same_connection_trans)
  then show ?case by (simp add: run_def)
qed

lemma flush_loop_frame:
  "ws (flush_loop q c) = ws c \<and> readyState (flush_loop q c) = readyState c
   \<and> connectResult (flush_loop q c) = connectResult c
   \<and> notifications (flush_loop q c) = notifications c
   \<and> timers (flush_loop q c) = timers c"
  by (induction q arbitrary: c) (auto simp: socket_send_def split: option.splits)

lemma flush_loop_open:
  "ws c = Some w \<Longrightarrow> readyState c w = OPEN \<Longrightarrow>
     transmitted (flush_loop q c) = transmitted c @ map (Pair w) q
     \<and> sendQueue (flush_loop q c) = []"
  by (induction q arbitrary: c) (auto simp: socket_send_def)

lemma connect_fresh:
  assumes "\<not> ws_open c0"
  shows "fst (connect apiKey c0) = Pending (socketCount c0)"
    and "ws (snd (connect apiKey c0)) = Some (socketCount c0)"
    and "readyState (snd (connect apiKey c0)) (socketCount c0) = CONNECTING"
    and "connectResult (snd (connect apiKey c0)) (socketCount c0) = None"
    and "timers (snd (connect apiKey c0))
           = (timerCount c0 + 1, UnstoredTimeout (socketCount c0))
             # (timerCount c0, StoredTimeout (socketCount c0)) # timers c0"
    and "session_state (snd (connect apiKey c0)) = connecting"
    and "sendQueue (snd (connect apiKey c0)) = sendQueue c0"
    and "transmitted (snd (connect apiKey c0)) = transmitted c0"
  using assms by (simp_all add: connect_def notify_def setTimeout_def Let_def session_state_def)

lemma open_after_connect:
  assumes "ws c = Some w" "readyState c w = CONNECTING"
  shows "ws (step (SocketOpen w) c) = Some w"
    and "readyState (step (SocketOpen w) c) w = OPEN"
    and "connectResult (step (SocketOpen w) c) = connectResult c"
    and "timers (step (SocketOpen w) c) = timers c"
    and "session_state (step (SocketOpen w) c) = settingUp"
    and "sendQueue (step (SocketOpen w) c) = sendQueue c"
    and "transmitted (step (SocketOpen w) c) = transmitted c @ [(w, SetupMsg)]"
  using assms
  by (simp_all add: onopen_def sendSetup_def sendJSON_def notify_def socket_send_def
      session_state_def)

lemma timedOut_result:
  assumes "connectResult c w = None"
  shows "connectResult (timedOut w c) w = Some False"
    and "session_state (timedOut w c) = error"
  using assms
  by (simp_all add: timedOut_def resolveOnce_def notify_def socket_close_def Let_def
      session_state_def)

lemma timedOut_result':
  assumes "connectResult c w = Some False"
  shows "connectResult (timedOut w c) w = Some False"
    and "session_state (timedOut w c) = error"
  using assms
  by (simp_all add: timedOut_def resolveOnce_def notify_def socket_close_def Let_def
      session_state_def)

lemma timedOut_timers: "timers (timedOut w c) = timers c"
  by (simp add: timedOut_def resolveOnce_def notify_def socket_close_def Let_def)

lemma ack_result:
  assumes "setupComplete j" "connectResult c w = None"
  shows "connectResult (handleMessage j w c) w = Some True"
    and "session_state (handleMessage j w c) = ready"
  using assms
  by (simp_all add: handleMessage_def Let_def resolveOnce_def flushSendQueue_def
      flush_loop_frame notify_def clearTimeout_def session_state_def split: option.splits)

lemma sendJSON_closed: "\<not> ws_open c \<Longrightarrow> sendJSON m c = c\<lparr>sendQueue := sendQueue c @ [m]\<rparr>"
  by (simp add: sendJSON_def ws_open_def split: option.splits)

lemma sendJSON_open:
  "ws c = Some w \<Longrightarrow> readyState c w = OPEN \<Longrightarrow>
     sendJSON m c = c\<lparr>transmitted := transmitted c @ [(w, m)]\<rparr>"
  by (simp add: sendJSON_def socket_send_def)

lemma run_respond_closed:
  "\<not> ws_open c \<Longrightarrow>
     run (map respond rs) c = c\<lparr>sendQueue := sendQueue c @ map response_msg rs\<rparr>"
proof (induction rs arbitrary: c)
  case Nil
  show ?case by (simp add: run_def)
next
  case (Cons r rs)
  obtain i n res err where r: "r = (i, n, res, err)" by (cases r)
  let ?c = "c\<lparr>sendQueue := sendQueue c @ [response_msg r]\<rparr>"
  have s: "step (respond r) c = ?c"
    using Cons.prems by (simp add: r sendToolResponse_def sendJSON_closed)
  have "\<not> ws_open ?c" using Cons.prems by (simp add: ws_open_def split: option.splits)
  from Cons.IH [OF this] have "run (map respond rs) ?c
      = c\<lparr>sendQueue := sendQueue c @ map response_msg (r # rs)\<rparr>" by simp
  with s show ?case by (simp add: run_def)
qed

lemma run_respond_open:
  "ws c = Some w \<Longrightarrow> readyState c w = OPEN \<Longrightarrow>
     run (map respond rs) c
       = c\<lparr>transmitted := transmitted c @ map (\<lambda>r. (w, response_msg r)) rs\<rparr>"
proof (induction rs arbitrary: c)
  case Nil
  show ?case by (simp add: run_def)
next
  case (Cons r rs)
  obtain i n res err where r: "r = (i, n, res, err)" by (cases r)
  let ?c = "c\<lparr>transmitted := transmitted c @ [(w, response_msg r)]\<rparr>"
  have s: "step (respond r) c = ?c"
    using Cons.prems by (simp add: r sendToolResponse_def sendJSON_open)
  have "ws ?c = Some w" "readyState ?c w = OPEN" using Cons.prems by simp_all
  from Cons.IH [OF this] have "run (map respond rs) ?c
      = c\<lparr>transmitted := transmitted c @ map (\<lambda>r. (w, response_msg r)) (r # rs)\<rparr>" by simp
  with s show ?case by (simp add: run_def)
qed

lemma ack_flush:
  assumes "ws c = Some w" "readyState c w = OPEN" "setupComplete j"
  shows "session_state (handleMessage j w' c) = ready"
    and "sendQueue (handleMessage j w' c) = []"
    and "transmitted (handleMessage j w' c) = transmitted c @ map (Pair w) (sendQueue c)"
    and "ws (handleMessage j w' c) = Some w"
    and "readyState (handleMessage j w' c) w = OPEN"
proof -
  define c1 where "c1 = (case connectTimeoutId c of None \<Rightarrow> c
                   | Some t \<Rightarrow> (clearTimeout t c)\<lparr>connectTimeoutId := None\<rparr>)"
  define c2 where "c2 = notify (StateChange ready None) c1"
  have hm: "handleMessage j w' c = resolveOnce w' True (flush_loop (sendQueue c2) c2)"
    using assms(3) by (simp add: handleMessage_def c1_def c2_def flushSendQueue_def Let_def)
  have c2: "ws c2 = Some w" "readyState c2 w = OPEN" "sendQueue c2 = sendQueue c"
    "transmitted c2 = transmitted c" "session_state c2 = ready"
    using assms(1,2)
    by (simp_all add: c2_def c1_def notify_def clearTimeout_def session_state_def
        split: option.splits)
  note fl = flush_loop_open [OF c2(1,2), of "sendQueue c2"]
  note fr = flush_loop_frame [of "sendQueue c2" c2]
  show "session_state (handleMessage j w' c) = ready"
    unfolding hm using fr c2(5) by (simp add: resolveOnce_def session_state_def)
  show "sendQueue (handleMessage j w' c) = []"
    unfolding hm using fl by (simp add: resolveOnce_def)
  show "transmitted (handleMessage j w' c) = transmitted c @ map (Pair w) (sendQueue c)"
    unfolding hm using fl c2(3,4) by (simp add: resolveOnce_def)
  show "ws (handleMessage j w' c) = Some w"
    unfolding hm using fr c2(1) by (simp add: resolveOnce_def)
  show "readyState (handleMessage j w' c) w = OPEN"
    unfolding hm using fr c2(2) by (simp add: resolveOnce_def)
qed

lemma connect_window:
  assumes "\<not> ws_open c0" and "list_all quiet_event evs"
  shows "let w = socketCount c0; t = timerCount c0;
             c = run (SocketOpen w # evs) (snd (connect apiKey c0))
         in fst (connect apiKey c0) = Pending w
          \<and> connectResult c w = None
          \<and> connectResult (step (TimerExpired t) c) w = Some False
          \<and> session_state (step (TimerExpired t) c) = error
          \<and> connectResult (run [TimerExpired t, TimerExpired (t + 1)] c) w = Some False
          \<and> session_state (run [TimerExpired t, TimerExpired (t + 1)] c) = error
          \<and> (setupComplete j \<longrightarrow>
                connectResult (step (SocketMessage w (Some j)) c) w = Some True
              \<and> session_state (step (SocketMessage w (Some j)) c) = ready)"
proof -
  define w where "w = socketCount c0"
  define t where "t = timerCount c0"
  define c1 where "c1 = snd (connect apiKey c0)"
  define c2 where "c2 = step (SocketOpen w) c1"
  define c where "c = run evs c2"
  note cf = connect_fresh [OF assms(1), of apiKey, folded w_def t_def c1_def]
  note op = open_after_connect [OF cf(2,3), folded c2_def]
  have same: "same_connection c2 c"
    unfolding c_def by (rule same_quiet_run [OF assms(2)])
  then have ws: "ws c = Some w" and rs: "readyState c w = OPEN"
    and cr: "connectResult c w = None"
    and tm: "timers c = (t + 1, UnstoredTimeout w) # (t, StoredTimeout w) # timers c0"
    using op cf by (simp_all add: same_connection_def)
  have run_eq: "run (SocketOpen w # evs) c1 = c"
    by (simp add: run_def c_def c2_def)
  define a where "a = step (TimerExpired t) c"
  have a: "a = timedOut w ((clearTimeout t c)\<lparr>connectTimeoutId := None\<rparr>)"
    unfolding a_def by (simp add: tm)
  have cr_a: "connectResult ((clearTimeout t c)\<lparr>connectTimeoutId := None\<rparr>) w = None"
    using cr by (simp add: clearTimeout_def)
  note ra = timedOut_result [OF cr_a, folded a]
  have tm_a: "timers a = (t + 1, UnstoredTimeout w) # filter (\<lambda>e. fst e \<noteq> t) (timers c0)"
    unfolding a by (simp add: timedOut_timers clearTimeout_def tm)
  define b where "b = step (TimerExpired (t + 1)) a"
  have run_b: "run [TimerExpired t, TimerExpired (t + 1)] c = b"
    by (simp add: run_def a_def b_def)
  have b: "b = timedOut w (clearTimeout (t + 1) a)"
    unfolding b_def by (simp add: tm_a)
  have cr_b: "connectResult (clearTimeout (t + 1) a) w = Some False"
    using ra(1) by (simp add: clearTimeout_def)
  note rb = timedOut_result' [OF cr_b, folded b]
  have k: "setupComplete j \<longrightarrow>
                connectResult (step (SocketMessage w (Some j)) c) w = Some True
              \<and> session_state (step (SocketMessage w (Some j)) c) = ready"
    using ack_result [of j c w] cr rs by (simp add: onmessage_def)
  from cf(1) cr ra rb k show ?thesis
    unfolding Let_def w_def [symmetric] t_def [symmetric] c1_def [symmetric] run_eq run_b
      a_def [symmetric]
    by blast
qed

lemma map_of_filter_other:
  "t' \<noteq> t \<Longrightarrow> map_of (filter (\<lambda>e. fst e \<noteq> t') xs) t = map_of xs t"
  by (induction xs) auto

lemma pending_same:
  "same_connection c c' \<Longrightarrow> timerCount c' = timerCount c \<Longrightarrow> socketCount c' = socketCount c \<Longrightarrow>
     timeout_pending w t c \<Longrightarrow> timeout_pending w t c'"
  by (simp add: timeout_pending_def same_connection_def)

lemma counts_sendJSON: "timerCount (sendJSON m c) = timerCount c \<and> socketCount (sendJSON m c) = socketCount c"
  by (simp add: sendJSON_def socket_send_def split: option.splits)

lemma counts_fold_handlePart:
  "timerCount (fold handlePart ps c) = timerCount c \<and> socketCount (fold handlePart ps c) = socketCount c"
  by (induction ps arbitrary: c)
     (simp_all add: handlePart_def notify_def Let_def split: option.splits)

lemma counts_fold_notifyToolCall:
  "timerCount (fold notifyToolCall calls c) = timerCount c
   \<and> socketCount (fold notifyToolCall calls c) = socketCount c"
  by (induction calls arbitrary: c) (simp_all add: notifyToolCall_def notify_def)

lemma counts_handleServerContent:
  "timerCount (handleServerContent sc c) = timerCount c
   \<and> socketCount (handleServerContent sc c) = socketCount c"
  by (simp add: handleServerContent_def notify_def Let_def counts_fold_handlePart
      split: option.splits)

lemma counts_flush_loop:
  "timerCount (flush_loop q c) = timerCount c \<and> socketCount (flush_loop q c) = socketCount c
   \<and> connectTimeoutId (flush_loop q c) = connectTimeoutId c"
  by (induction q arbitrary: c) (auto simp: socket_send_def split: option.splits)

lemma pending_handleMessage_other:
  assumes "\<not> setupComplete j" "timeout_pending w t c"
  shows "timeout_pending w t (handleMessage j w' c)"
proof (rule pending_same [OF same_handleMessage [OF assms(1)] _ _ assms(2)])
  show "timerCount (handleMessage j w' c) = timerCount c"
    using assms(1)
    by (simp add: handleMessage_def notify_def counts_fold_notifyToolCall
        counts_handleServerContent split: option.splits)
  show "socketCount (handleMessage j w' c) = socketCount c"
    using assms(1)
    by (simp add: handleMessage_def notify_def counts_fold_notifyToolCall
        counts_handleServerContent split: option.splits)
qed

lemma pending_handleMessage_ack:
  assumes "setupComplete j" "w' \<noteq> w" "timeout_pending w t c"
  shows "timeout_pending w t (handleMessage j w' c)"
  using assms
  by (auto simp add: handleMessage_def Let_def timeout_pending_def resolveOnce_def
      flushSendQueue_def flush_loop_frame counts_flush_loop notify_def clearTimeout_def
      map_of_filter_other split: option.splits)

lemma pending_timedOut:
  "timeout_pending w t c \<Longrightarrow> timeout_pending w t (timedOut w' c)"
  by (auto simp add: timedOut_def Let_def timeout_pending_def resolveOnce_def notify_def
      socket_close_def)

lemma pending_step:
  assumes "in_window w t e" "timeout_pending w t c"
  shows "timeout_pending w t (step e c)"
proof (cases e)
  case (CallConnect k)
  with assms(2) show ?thesis
    by (auto simp add: connect_def Let_def timeout_pending_def notify_def setTimeout_def)
next
  case (CallSendVideoFrame d)
  with assms(2) show ?thesis
    by (auto simp add: sendVideoFrame_def counts_sendJSON intro: pending_same [OF same_sendJSON])
next
  case (CallSendAudio d)
  with assms(2) show ?thesis
    by (auto simp add: sendAudio_def counts_sendJSON intro: pending_same [OF same_sendJSON])
next
  case (CallSendToolResponse i n r err)
  with assms(2) show ?thesis
    by (auto simp add: sendToolResponse_def counts_sendJSON intro: pending_same [OF same_sendJSON])
next
  case CallDisconnect
  with assms(2) show ?thesis
    by (auto simp add: disconnect_def Let_def timeout_pending_def notify_def socket_close_def
        split: option.splits)
next
  case (SocketOpen w')
  with assms(2) show ?thesis
    by (auto simp add: onopen_def sendSetup_def sendJSON_def socket_send_def notify_def
        timeout_pending_def split: option.splits)
next
  case (SocketMessage w' msg)
  show ?thesis
  proof (cases msg)
    case None
    with SocketMessage assms(2) show ?thesis by (simp add: onmessage_def)
  next
    case (Some j)
    with SocketMessage assms(1) have "\<not> setupComplete j \<or> w' \<noteq> w" by auto
    with assms(2) have "timeout_pending w t (handleMessage j w' c)"
      by (cases "setupComplete j")
         (simp_all add: pending_handleMessage_other pending_handleMessage_ack)
    with Some SocketMessage assms(2) show ?thesis
      by (simp add: onmessage_def)
  qed
next
  case (SocketError w')
  with assms(2) show ?thesis
    by (auto simp add: onerror_def resolveOnce_def notify_def timeout_pending_def)
next
  case (SocketClose w' code reason)
  with assms(2) show ?thesis
    by (auto simp add: onclose_def resolveOnce_def notify_def timeout_pending_def)
next
  case (TimerExpired t')
  with assms(1) have ne: "t' \<noteq> t" by simp
  show ?thesis
  proof (cases "map_of (timers c) t'")
    case None
    with TimerExpired assms(2) show ?thesis by simp
  next
    case (Some cb)
    from assms(2) ne have p: "timeout_pending w t (clearTimeout t' c)"
      by (simp add: timeout_pending_def clearTimeout_def map_of_filter_other)
    then have "timeout_pending w t ((clearTimeout t' c)\<lparr>connectTimeoutId := None\<rparr>)"
      by (simp add: timeout_pending_def)
    with p have "timeout_pending w t (timerCallback cb (clearTimeout t' c))"
      by (cases cb) (simp_all add: pending_timedOut)
    with Some TimerExpired show ?thesis by simp
  qed
qed

lemma pending_run:
  "list_all (in_window w t) evs \<Longrightarrow> timeout_pending w t c \<Longrightarrow> timeout_pending w t (run evs c)"
proof (induction evs arbitrary: c)
  case Nil
  then show ?case by (simp add: run_def)
next
  case (Cons e evs)
  then have "timeout_pending w t (step e c)" by (simp add: pending_step)
  with Cons have "timeout_pending w t (run evs (step e c))" by simp
  then show ?case by (simp add: run_def)
qed

lemma pending_connect:
  assumes "\<not> ws_open c0"
  shows "timeout_pending (socketCount c0) (timerCount c0 + 1) (snd (connect apiKey c0))"
  using assms
  by (simp add: connect_def Let_def timeout_pending_def notify_def setTimeout_def)

lemma pending_expires:
  assumes "timeout_pending w t c"
  shows "connectResult (step (TimerExpired t) c) w = Some False"
    and "session_state (step (TimerExpired t) c) = error"
proof -
  from assms have m: "map_of (timers c) t = Some (UnstoredTimeout w)"
    and r: "connectResult c w \<noteq> Some True"
    by (simp_all add: timeout_pending_def)
  have s: "step (TimerExpired t) c = timedOut w (clearTimeout t c)"
    by (simp add: m)
  from r have "connectResult (clearTimeout t c) w = None
      \<or> connectResult (clearTimeout t c) w = Some False"
    by (cases "connectResult c w") (auto simp: clearTimeout_def)
  then show "connectResult (step (TimerExpired t) c) w = Some False"
    and "session_state (step (TimerExpired t) c) = error"
    unfolding s using timedOut_result timedOut_result' by blast+
qed

text \<open>
  Claim C1, on a fresh client: \<^verbatim>\<open>connect\<close>, the socket opens, \<^verbatim>\<open>setupComplete\<close> arrives.
  The session is ready, the promise is resolved with true and the stored timeout is
  cleared, but the second timeout armed by \<^verbatim>\<open>connect\<close> is still armed. When it expires,
  the state reported is error and the open socket is closed.
\<close>

theorem ready_session_is_timed_out:
  "session_state
     (run [CallConnect apiKey, SocketOpen 0, SocketMessage 0 (Some setupCompleteMsg)] init)
     = ready
   \<and> connectResult
       (run [CallConnect apiKey, SocketOpen 0, SocketMessage 0 (Some setupCompleteMsg)] init) 0
     = Some True
   \<and> readyState
       (run [CallConnect apiKey, SocketOpen 0, SocketMessage 0 (Some setupCompleteMsg)] init) 0
     = OPEN
   \<and> connectTimeoutId
       (run [CallConnect apiKey, SocketOpen 0, SocketMessage 0 (Some setupCompleteMsg)] init)
     = None
   \<and> timers
       (run [CallConnect apiKey, SocketOpen 0, SocketMessage 0 (Some setupCompleteMsg)] init)
     = [(1, UnstoredTimeout 0)]
   \<and> session_state
       (run [CallConnect apiKey, SocketOpen 0, SocketMessage 0 (Some setupCompleteMsg),
             TimerExpired 1] init)
     = error
   \<and> readyState
       (run [CallConnect apiKey, SocketOpen 0, SocketMessage 0 (Some setupCompleteMsg),
             TimerExpired 1] init) 0
     = CLOSING"
  by (simp add: client_defs setupCompleteMsg_def)

text \<open>
  Claim C2. \<^verbatim>\<open>connect\<close> is called on a client whose socket is not open. Whatever happens
  before the second timeout of the call expires, as long as no message with
  \<^verbatim>\<open>setupComplete\<close> arrives on the socket of the call, after that expiry the promise is
  resolved with false and the state reported is error. In particular, when the socket opens
  and then only messages without \<^verbatim>\<open>setupComplete\<close> arrive and only send calls are made,
  the promise stays pending until the first timeout expires, which resolves it with false
  and reports error, as the second one does after it. When instead a message with
  \<^verbatim>\<open>setupComplete\<close> arrives in that time, the promise is resolved with true and the state
  reported is ready.
\<close>

theorem connect_resolution:
  assumes "\<not> ws_open c0"
  shows "let w = socketCount c0; t = timerCount c0; c1 = snd (connect apiKey c0)
         in fst (connect apiKey c0) = Pending w
          \<and> (list_all (in_window w (t + 1)) evs \<longrightarrow>
                connectResult (step (TimerExpired (t + 1)) (run evs c1)) w = Some False
              \<and> session_state (step (TimerExpired (t + 1)) (run evs c1)) = error)
          \<and> (list_all quiet_event qs \<longrightarrow>
                connectResult (run (SocketOpen w # qs) c1) w = None
              \<and> connectResult (step (TimerExpired t) (run (SocketOpen w # qs) c1)) w
                  = Some False
              \<and> session_state (step (TimerExpired t) (run (SocketOpen w # qs) c1)) = error
              \<and> connectResult
                  (run [TimerExpired t, TimerExpired (t + 1)] (run (SocketOpen w # qs) c1)) w
                  = Some False
              \<and> session_state
                  (run [TimerExpired t, TimerExpired (t + 1)] (run (SocketOpen w # qs) c1))
                  = error
              \<and> (setupComplete j \<longrightarrow>
                    connectResult
                      (step (SocketMessage w (Some j)) (run (SocketOpen w # qs) c1)) w
                      = Some True
                  \<and> session_state
                      (step (SocketMessage w (Some j)) (run (SocketOpen w # qs) c1))
                      = ready))"
proof -
  have a: "fst (connect apiKey c0) = Pending (socketCount c0)"
    by (rule connect_fresh(1) [OF assms])
  have b: "connectResult (step (TimerExpired (timerCount c0 + 1))
                (run evs (snd (connect apiKey c0)))) (socketCount c0) = Some False
         \<and> session_state (step (TimerExpired (timerCount c0 + 1))
                (run evs (snd (connect apiKey c0)))) = error"
    if "list_all (in_window (socketCount c0) (timerCount c0 + 1)) evs"
    using pending_expires [OF pending_run [OF that pending_connect [OF assms, of apiKey]]]
    by blast
  have c: "list_all quiet_event qs \<longrightarrow>
      (let w = socketCount c0; t = timerCount c0;
           c = run (SocketOpen w # qs) (snd (connect apiKey c0))
       in fst (connect apiKey c0) = Pending w
          \<and> connectResult c w = None
          \<and> connectResult (step (TimerExpired t) c) w = Some False
          \<and> session_state (step (TimerExpired t) c) = error
          \<and> connectResult (run [TimerExpired t, TimerExpired (t + 1)] c) w = Some False
          \<and> session_state (run [TimerExpired t, TimerExpired (t + 1)] c) = error
          \<and> (setupComplete j \<longrightarrow>
                connectResult (step (SocketMessage w (Some j)) c) w = Some True
              \<and> session_state (step (SocketMessage w (Some j)) c) = ready))"
    using connect_window [OF assms, of qs apiKey j] by blast
  from a b c show ?thesis
    unfolding Let_def by blast
qed

theorem connect_resolution_witness:
  "\<not> ws_open init
   \<and> list_all (in_window 0 1)
       [SocketOpen 0, SocketMessage 0 None, SocketError 0, SocketClose 0 1006 [],
        TimerExpired 0]
   \<and> list_all quiet_event [SocketMessage 0 None, CallSendAudio ''pcm'']
   \<and> setupComplete setupCompleteMsg
   \<and> connectResult
       (step (TimerExpired 1)
          (run [SocketOpen 0, SocketMessage 0 None, SocketError 0, SocketClose 0 1006 [],
                TimerExpired 0]
             (snd (connect ''key'' init)))) 0
     = Some False
   \<and> session_state
       (step (TimerExpired 1)
          (run [SocketOpen 0, SocketMessage 0 None, SocketError 0, SocketClose 0 1006 [],
                TimerExpired 0]
             (snd (connect ''key'' init))))
     = error
   \<and> connectResult
       (run [TimerExpired 0, TimerExpired 1]
          (run [SocketOpen 0, SocketMessage 0 None, CallSendAudio ''pcm'']
             (snd (connect ''key'' init)))) 0
     = Some False
   \<and> session_state
       (run [TimerExpired 0, TimerExpired 1]
          (run [SocketOpen 0, SocketMessage 0 None, CallSendAudio ''pcm'']
             (snd (connect ''key'' init))))
     = error
   \<and> connectResult
       (step (SocketMessage 0 (Some setupCompleteMsg))
          (run [SocketOpen 0, SocketMessage 0 None, CallSendAudio ''pcm'']
             (snd (connect ''key'' init)))) 0
     = Some True"
proof -
  have h1: "\<not> ws_open init" by (simp add: ws_open_def init_def)
  have h2: "list_all (in_window 0 (0 + 1))
       [SocketOpen 0, SocketMessage 0 None, SocketError 0, SocketClose 0 1006 [],
        TimerExpired 0]" by simp
  have h3: "list_all quiet_event [SocketMessage 0 None, CallSendAudio ''pcm'']" by simp
  have h4: "setupComplete setupCompleteMsg" by (simp add: setupCompleteMsg_def)
  have z: "socketCount init = 0" "timerCount init = 0" by (simp_all add: init_def)
  from connect_resolution [OF h1, of "''key''"
      "[SocketOpen 0, SocketMessage 0 None, SocketError 0, SocketClose 0 1006 [], TimerExpired 0]"
      "[SocketMessage 0 None, CallSendAudio ''pcm'']" setupCompleteMsg] h2 h3 h4
  have "connectResult
       (step (TimerExpired (0 + 1))
          (run [SocketOpen 0, SocketMessage 0 None, SocketError 0, SocketClose 0 1006 [],
                TimerExpired 0]
             (snd (connect ''key'' init)))) 0
     = Some False
   \<and> session_state
       (step (TimerExpired (0 + 1))
          (run [SocketOpen 0, SocketMessage 0 None, SocketError 0, SocketClose 0 1006 [],
                TimerExpired 0]
             (snd (connect ''key'' init))))
     = error
   \<and> connectResult
       (run [TimerExpired 0, TimerExpired (0 + 1)]
          (run [SocketOpen 0, SocketMessage 0 None, CallSendAudio ''pcm'']
             (snd (connect ''key'' init)))) 0
     = Some False
   \<and> session_state
       (run [TimerExpired 0, TimerExpired (0 + 1)]
          (run [SocketOpen 0, SocketMessage 0 None, CallSendAudio ''pcm'']
             (snd (connect ''key'' init))))
     = error
   \<and> connectResult
       (step (SocketMessage 0 (Some setupCompleteMsg))
          (run [SocketOpen 0, SocketMessage 0 None, CallSendAudio ''pcm'']
             (snd (connect ''key'' init)))) 0
     = Some True"
    unfolding Let_def z by blast
  with h1 h2 h3 h4 show ?thesis by simp
qed

text \<open>
  Claim C3, as the code has it. A setup or tool-response message submitted while the socket
  is not open is appended to the queue. One submitted while the socket is open is sent at
  once, also before \<^verbatim>\<open>setupComplete\<close>. When \<^verbatim>\<open>setupComplete\<close> arrives and the socket is
  open, the queue is sent in its order after everything sent so far, and is left empty.
  So for a \<^verbatim>\<open>connect\<close> on a client whose socket is not open, the socket receives: the
  setup message, the responses submitted between the opening and \<^verbatim>\<open>setupComplete\<close>, the
  messages queued before the opening in the order of their submission, and then the
  responses submitted after \<^verbatim>\<open>setupComplete\<close>.
\<close>

theorem outbound_queue_order:
  "(\<not> ws_open c \<longrightarrow>
        sendToolResponse callId name res err c
          = c\<lparr>sendQueue := sendQueue c @ [ToolResponse callId name res err]\<rparr>
      \<and> sendSetup c = c\<lparr>sendQueue := sendQueue c @ [SetupMsg]\<rparr>)
   \<and> (ws c = Some w \<and> readyState c w = OPEN \<longrightarrow>
        sendToolResponse callId name res err c
          = c\<lparr>transmitted := transmitted c @ [(w, ToolResponse callId name res err)]\<rparr>
      \<and> sendSetup c = c\<lparr>transmitted := transmitted c @ [(w, SetupMsg)]\<rparr>
      \<and> (setupComplete j \<longrightarrow>
            session_state (handleMessage j w' c) = ready
          \<and> sendQueue (handleMessage j w' c) = []
          \<and> transmitted (handleMessage j w' c) = transmitted c @ map (Pair w) (sendQueue c)
          \<and> ws (handleMessage j w' c) = Some w
          \<and> readyState (handleMessage j w' c) w = OPEN))
   \<and> (\<not> ws_open c \<and> setupComplete j \<longrightarrow>
        transmitted
          (run (CallConnect apiKey # map respond early
                @ SocketOpen (socketCount c) # map respond during
                @ SocketMessage (socketCount c) (Some j) # map respond late) c)
        = transmitted c
          @ map (Pair (socketCount c))
              (SetupMsg # map response_msg during
               @ (sendQueue c @ map response_msg early)
               @ map response_msg late))"
proof (intro conjI impI)
  assume "\<not> ws_open c"
  then show "sendToolResponse callId name res err c
          = c\<lparr>sendQueue := sendQueue c @ [ToolResponse callId name res err]\<rparr>"
    and "sendSetup c = c\<lparr>sendQueue := sendQueue c @ [SetupMsg]\<rparr>"
    by (simp_all add: sendToolResponse_def sendSetup_def sendJSON_closed)
next
  assume "ws c = Some w \<and> readyState c w = OPEN"
  then have o: "ws c = Some w" "readyState c w = OPEN" by simp_all
  then show "sendToolResponse callId name res err c
          = c\<lparr>transmitted := transmitted c @ [(w, ToolResponse callId name res err)]\<rparr>"
    and "sendSetup c = c\<lparr>transmitted := transmitted c @ [(w, SetupMsg)]\<rparr>"
    by (simp_all add: sendToolResponse_def sendSetup_def sendJSON_open)
  assume j: "setupComplete j"
  from ack_flush [OF o j]
  show "session_state (handleMessage j w' c) = ready"
    and "sendQueue (handleMessage j w' c) = []"
    and "transmitted (handleMessage j w' c) = transmitted c @ map (Pair w) (sendQueue c)"
    and "ws (handleMessage j w' c) = Some w"
    and "readyState (handleMessage j w' c) w = OPEN"
    by simp_all
next
  assume a: "\<not> ws_open c \<and> setupComplete j"
  then have closed: "\<not> ws_open c" and j: "setupComplete j" by simp_all
  define w where "w = socketCount c"
  define c1 where "c1 = snd (connect apiKey c)"
  define c2 where "c2 = run (map respond early) c1"
  define c3 where "c3 = step (SocketOpen w) c2"
  define c4 where "c4 = run (map respond during) c3"
  define c5 where "c5 = step (SocketMessage w (Some j)) c4"
  define c6 where "c6 = run (map respond late) c5"
  note cf = connect_fresh [OF closed, of apiKey, folded w_def c1_def]
  have c1_closed: "\<not> ws_open c1" using cf(2,3) by (simp add: ws_open_def)
  have c2: "c2 = c1\<lparr>sendQueue := sendQueue c1 @ map response_msg early\<rparr>"
    unfolding c2_def by (rule run_respond_closed [OF c1_closed])
  have c2f: "ws c2 = Some w" "readyState c2 w = CONNECTING"
    "sendQueue c2 = sendQueue c @ map response_msg early" "transmitted c2 = transmitted c"
    unfolding c2 using cf by simp_all
  note op = open_after_connect [OF c2f(1,2), folded c3_def]
  have c4: "c4 = c3\<lparr>transmitted := transmitted c3 @ map (\<lambda>r. (w, response_msg r)) during\<rparr>"
    unfolding c4_def by (rule run_respond_open [OF op(1,2)])
  have c4f: "ws c4 = Some w" "readyState c4 w = OPEN"
    "sendQueue c4 = sendQueue c @ map response_msg early"
    "transmitted c4 = transmitted c @ (w, SetupMsg) # map (\<lambda>r. (w, response_msg r)) during"
    unfolding c4 using op c2f by simp_all
  have c5: "c5 = handleMessage j w c4"
    unfolding c5_def using c4f(2) by (simp add: onmessage_def)
  note fl = ack_flush [OF c4f(1,2) j, of w, folded c5]
  have c6: "c6 = c5\<lparr>transmitted := transmitted c5 @ map (\<lambda>r. (w, response_msg r)) late\<rparr>"
    unfolding c6_def by (rule run_respond_open [OF fl(4,5)])
  have "transmitted c6 = transmitted c
          @ map (Pair w)
              (SetupMsg # map response_msg during
               @ (sendQueue c @ map response_msg early)
               @ map response_msg late)"
    unfolding c6 using fl(3) c4f(3,4) by (simp add: comp_def)
  moreover have "run (CallConnect apiKey # map respond early
                @ SocketOpen w # map respond during
                @ SocketMessage w (Some j) # map respond late) c = c6"
    by (simp add: run_def c6_def c5_def c4_def c3_def c2_def c1_def)
  ultimately show "transmitted
          (run (CallConnect apiKey # map respond early
                @ SocketOpen (socketCount c) # map respond during
                @ SocketMessage (socketCount c) (Some j) # map respond late) c)
        = transmitted c
          @ map (Pair (socketCount c))
              (SetupMsg # map response_msg during
               @ (sendQueue c @ map response_msg early)
               @ map response_msg late)"
    unfolding w_def by simp
qed

text \<open>
  Claim C3 as stated fails: response \<open>a\<close> is queued while the socket is connecting,
  response \<open>b\<close> is submitted after the socket has opened, and the socket receives the setup
  message and \<open>b\<close> before \<open>a\<close>.
\<close>

theorem queued_response_overtaken:
  "sendQueue
     (run [CallConnect ''key'', CallSendToolResponse ''a'' ''execute'' (Some ''done'') None]
        init)
     = [ToolResponse ''a'' ''execute'' (Some ''done'') None]
   \<and> session_state
       (run [CallConnect ''key'', CallSendToolResponse ''a'' ''execute'' (Some ''done'') None,
             SocketOpen 0, CallSendToolResponse ''b'' ''execute'' (Some ''done'') None,
             SocketMessage 0 (Some setupCompleteMsg)] init)
     = ready
   \<and> transmitted
       (run [CallConnect ''key'', CallSendToolResponse ''a'' ''execute'' (Some ''done'') None,
             SocketOpen 0, CallSendToolResponse ''b'' ''execute'' (Some ''done'') None,
             SocketMessage 0 (Some setupCompleteMsg)] init)
     = [(0, SetupMsg),
        (0, ToolResponse ''b'' ''execute'' (Some ''done'') None),
        (0, ToolResponse ''a'' ''execute'' (Some ''done'') None)]
   \<and> \<not> sent_before (ToolResponse ''a'' ''execute'' (Some ''done'') None)
         (ToolResponse ''b'' ''execute'' (Some ''done'') None)
         (transmitted
           (run [CallConnect ''key'', CallSendToolResponse ''a'' ''execute'' (Some ''done'') None,
                 SocketOpen 0, CallSendToolResponse ''b'' ''execute'' (Some ''done'') None,
                 SocketMessage 0 (Some setupCompleteMsg)] init))"
  by (simp add: client_defs setupCompleteMsg_def sent_before_def)

text \<open>The three cases of the theorem, on a fresh client.\<close>

theorem outbound_queue_order_witness:
  "\<not> ws_open init
   \<and> setupComplete setupCompleteMsg
   \<and> sendToolResponse ''a'' ''execute'' (Some ''done'') None init
       = init\<lparr>sendQueue := sendQueue init @ [ToolResponse ''a'' ''execute'' (Some ''done'') None]\<rparr>
   \<and> transmitted
       (run (CallConnect ''key'' # map respond [(''a'', ''execute'', Some ''done'', None)]
             @ SocketOpen (socketCount init)
               # map respond [(''b'', ''execute'', Some ''done'', None)]
             @ SocketMessage (socketCount init) (Some setupCompleteMsg)
               # map respond [(''c'', ''execute'', Some ''done'', None)]) init)
     = transmitted init
       @ map (Pair (socketCount init))
           (SetupMsg # map response_msg [(''b'', ''execute'', Some ''done'', None)]
            @ (sendQueue init @ map response_msg [(''a'', ''execute'', Some ''done'', None)])
            @ map response_msg [(''c'', ''execute'', Some ''done'', None)])
   \<and> ws (run [CallConnect ''key'', SocketOpen 0] init) = Some 0
   \<and> readyState (run [CallConnect ''key'', SocketOpen 0] init) 0 = OPEN
   \<and> transmitted (handleMessage setupCompleteMsg 0 (run [CallConnect ''key'', SocketOpen 0] init))
       = transmitted (run [CallConnect ''key'', SocketOpen 0] init)
         @ map (Pair 0) (sendQueue (run [CallConnect ''key'', SocketOpen 0] init))"
proof -
  have h1: "\<not> ws_open init" by (simp add: ws_open_def init_def)
  have h2: "setupComplete setupCompleteMsg" by (simp add: setupCompleteMsg_def)
  have h3: "ws (run [CallConnect ''key'', SocketOpen 0] init) = Some 0"
    and h4: "readyState (run [CallConnect ''key'', SocketOpen 0] init) 0 = OPEN"
    by (simp_all add: client_defs)
  from outbound_queue_order [of init "''a''" "''execute''" "Some ''done''" None _ setupCompleteMsg
      _ "''key''" "[(''a'', ''execute'', Some ''done'', None)]"
      "[(''b'', ''execute'', Some ''done'', None)]" "[(''c'', ''execute'', Some ''done'', None)]"]
    h1 h2
  have a: "sendToolResponse ''a'' ''execute'' (Some ''done'') None init
       = init\<lparr>sendQueue := sendQueue init @ [ToolResponse ''a'' ''execute'' (Some ''done'') None]\<rparr>"
    and b: "transmitted
       (run (CallConnect ''key'' # map respond [(''a'', ''execute'', Some ''done'', None)]
             @ SocketOpen (socketCount init)
               # map respond [(''b'', ''execute'', Some ''done'', None)]
             @ SocketMessage (socketCount init) (Some setupCompleteMsg)
               # map respond [(''c'', ''execute'', Some ''done'', None)]) init)
     = transmitted init
       @ map (Pair (socketCount init))
           (SetupMsg # map response_msg [(''b'', ''execute'', Some ''done'', None)]
            @ (sendQueue init @ map response_msg [(''a'', ''execute'', Some ''done'', None)])
            @ map response_msg [(''c'', ''execute'', Some ''done'', None)])"
    by blast+
  from outbound_queue_order [of "run [CallConnect ''key'', SocketOpen 0] init" _ _ _ _ 0
      setupCompleteMsg 0] h2 h3 h4
  have c: "transmitted (handleMessage setupCompleteMsg 0 (run [CallConnect ''key'', SocketOpen 0] init))
       = transmitted (run [CallConnect ''key'', SocketOpen 0] init)
         @ map (Pair 0) (sendQueue (run [CallConnect ''key'', SocketOpen 0] init))"
    by blast
  from h1 h2 a b h3 h4 c show ?thesis by blast
qed

text \<open>
  Claim C4, as the code has it. \<^verbatim>\<open>sendVideoFrame\<close> and \<^verbatim>\<open>sendAudio\<close> leave the whole
  state unchanged when the socket is not open. When it is open, whatever state was last
  reported, they send the frame at once and change nothing else.
\<close>

theorem realtime_input_gate:
  "(\<not> ws_open c \<longrightarrow> sendVideoFrame d c = c \<and> sendAudio d c = c)
   \<and> (ws c = Some w \<and> readyState c w = OPEN \<longrightarrow>
        sendVideoFrame d c = c\<lparr>transmitted := transmitted c @ [(w, RealtimeVideo d)]\<rparr>
      \<and> sendAudio d c = c\<lparr>transmitted := transmitted c @ [(w, RealtimeAudio d)]\<rparr>)"
  by (simp add: sendVideoFrame_def sendAudio_def sendJSON_open ws_open_def)

text \<open>
  Claim C4 as stated fails: after the socket has opened and before \<^verbatim>\<open>setupComplete\<close>, the
  state reported is \<^verbatim>\<open>settingUp\<close>, and both calls send their frame.
\<close>

theorem settingUp_audio_is_sent:
  "session_state (run [CallConnect ''key'', SocketOpen 0] init) = settingUp
   \<and> transmitted (run [CallConnect ''key'', SocketOpen 0] init) = [(0, SetupMsg)]
   \<and> sendQueue (run [CallConnect ''key'', SocketOpen 0] init) = []
   \<and> transmitted (sendAudio ''pcm'' (run [CallConnect ''key'', SocketOpen 0] init))
       = [(0, SetupMsg), (0, RealtimeAudio ''pcm'')]
   \<and> transmitted (sendVideoFrame ''jpeg'' (run [CallConnect ''key'', SocketOpen 0] init))
       = [(0, SetupMsg), (0, RealtimeVideo ''jpeg'')]
   \<and> sendAudio ''pcm'' (run [CallConnect ''key'', SocketOpen 0] init)
       \<noteq> run [CallConnect ''key'', SocketOpen 0] init
   \<and> sendVideoFrame ''jpeg'' (run [CallConnect ''key'', SocketOpen 0] init)
       \<noteq> run [CallConnect ''key'', SocketOpen 0] init"
proof -
  let ?c = "run [CallConnect ''key'', SocketOpen 0] init"
  have s: "session_state ?c = settingUp" and t: "transmitted ?c = [(0, SetupMsg)]"
    and q: "sendQueue ?c = []"
    by (simp_all add: client_defs)
  have a: "transmitted (sendAudio ''pcm'' ?c) = [(0, SetupMsg), (0, RealtimeAudio ''pcm'')]"
    and v: "transmitted (sendVideoFrame ''jpeg'' ?c) = [(0, SetupMsg), (0, RealtimeVideo ''jpeg'')]"
    by (simp_all add: client_defs)
  from a t have "sendAudio ''pcm'' ?c \<noteq> ?c" by force
  moreover from v t have "sendVideoFrame ''jpeg'' ?c \<noteq> ?c" by force
  ultimately show ?thesis using s t q a v by blast
qed

text \<open>The two cases of the theorem: while connecting, and after the socket has opened.\<close>

theorem realtime_input_gate_witness:
  "\<not> ws_open (snd (connect ''key'' init))
   \<and> session_state (snd (connect ''key'' init)) = connecting
   \<and> sendVideoFrame ''jpeg'' (snd (connect ''key'' init)) = snd (connect ''key'' init)
   \<and> sendAudio ''pcm'' (snd (connect ''key'' init)) = snd (connect ''key'' init)
   \<and> ws (run [CallConnect ''key'', SocketOpen 0] init) = Some 0
   \<and> readyState (run [CallConnect ''key'', SocketOpen 0] init) 0 = OPEN
   \<and> sendAudio ''pcm'' (run [CallConnect ''key'', SocketOpen 0] init)
       = (run [CallConnect ''key'', SocketOpen 0] init)
           \<lparr>transmitted := transmitted (run [CallConnect ''key'', SocketOpen 0] init)
                             @ [(0, RealtimeAudio ''pcm'')]\<rparr>"
proof -
  have h1: "\<not> ws_open (snd (connect ''key'' init))"
    and h2: "session_state (snd (connect ''key'' init)) = connecting"
    by (simp_all add: client_defs)
  have h3: "ws (run [CallConnect ''key'', SocketOpen 0] init) = Some 0"
    and h4: "readyState (run [CallConnect ''key'', SocketOpen 0] init) 0 = OPEN"
    by (simp_all add: client_defs)
  from realtime_input_gate [of "snd (connect ''key'' init)" "''jpeg''"] h1
  have a: "sendVideoFrame ''jpeg'' (snd (connect ''key'' init)) = snd (connect ''key'' init)"
    by blast
  from realtime_input_gate [of "snd (connect ''key'' init)" "''pcm''"] h1
  have b: "sendAudio ''pcm'' (snd (connect ''key'' init)) = snd (connect ''key'' init)"
    by blast
  from realtime_input_gate [of "run [CallConnect ''key'', SocketOpen 0] init" "''pcm''" 0] h3 h4
  have c: "sendAudio ''pcm'' (run [CallConnect ''key'', SocketOpen 0] init)
       = (run [CallConnect ''key'', SocketOpen 0] init)
           \<lparr>transmitted := transmitted (run [CallConnect ''key'', SocketOpen 0] init)
                             @ [(0, RealtimeAudio ''pcm'')]\<rparr>"
    by blast
  from h1 h2 a b h3 h4 c show ?thesis by blast
qed

end
